theory Spec2Isabelle
  imports Complex_Main "HOL-Library.Monad_Syntax" "HOL-Library.Product_Order"
begin

unbundle bit_operations_syntax

section \<open>Data model\<close>

text \<open>
  The kernels of \<^verbatim>\<open>mujoco/mjx/_src\<close> work on flat arrays. A \<^verbatim>\<open>wp.float32\<close>
  is modelled as a real number (exact arithmetic), a \<^verbatim>\<open>wp.vec3\<close> as a triple, a
  \<^verbatim>\<open>wp.quat\<close> as a quadruple whose component \<open>0\<close> is the scalar part (the
  order in which \<^verbatim>\<open>math.mul_quat\<close> reads it), a \<^verbatim>\<open>wp.mat33\<close> as three rows and
  a \<^verbatim>\<open>vec10\<close> as a ten-tuple. Tuples add and subtract componentwise.

  Every array of \<^verbatim>\<open>Data\<close> has the world as its first index and no kernel reads
  or writes another world's slice, so the record \<open>Data\<close> below is the slice of one
  world; a launch over \<^verbatim>\<open>(d.nworld, n)\<close> runs the \<open>n\<close> threads below on every slice.
\<close>

type_synonym vec3 = "real \<times> real \<times> real"
type_synonym quat = "real \<times> real \<times> real \<times> real"
type_synonym mat33 = "vec3 \<times> vec3 \<times> vec3"
type_synonym vec10 = "real \<times> real \<times> real \<times> real \<times> real \<times> real \<times> real \<times> real \<times> real \<times> real"
type_synonym spatial_vector = "real \<times> real \<times> real \<times> real \<times> real \<times> real"

text \<open>An index outside an array is an error of the kernel (\<open>None\<close>).\<close>

definition rd :: "'a list \<Rightarrow> nat \<Rightarrow> 'a option" where
  "rd xs i = (if i < length xs then Some (xs ! i) else None)"

definition wr :: "'a list \<Rightarrow> nat \<Rightarrow> 'a \<Rightarrow> 'a list option" where
  "wr xs i v = (if i < length xs then Some (xs[i := v]) else None)"

definition rdi :: "'a list \<Rightarrow> int \<Rightarrow> 'a option" where
  "rdi xs i = (if 0 \<le> i then rd xs (nat i) else None)"

definition wri :: "'a list \<Rightarrow> int \<Rightarrow> 'a \<Rightarrow> 'a list option" where
  "wri xs i v = (if 0 \<le> i then wr xs (nat i) v else None)"

definition rd2 :: "'a list list \<Rightarrow> nat \<Rightarrow> nat \<Rightarrow> 'a option" where
  "rd2 xss i j = do { row \<leftarrow> rd xss i; rd row j }"

definition wr2 :: "'a list list \<Rightarrow> nat \<Rightarrow> nat \<Rightarrow> 'a \<Rightarrow> 'a list list option" where
  "wr2 xss i j v = do { row \<leftarrow> rd xss i; row' \<leftarrow> wr row j v; wr xss i row' }"

text \<open>
  A launch of \<open>n\<close> threads. The threads of one launch are run one after the other in
  the order of their ids; a thread that fails makes the launch fail.
\<close>

primrec launch_seq :: "('s \<Rightarrow> nat \<Rightarrow> 's option) \<Rightarrow> nat list \<Rightarrow> 's \<Rightarrow> 's option" where
  "launch_seq k [] s = Some s"
| "launch_seq k (t # ts) s = (case k s t of None \<Rightarrow> None | Some s' \<Rightarrow> launch_seq k ts s')"

definition launch :: "('s \<Rightarrow> nat \<Rightarrow> 's option) \<Rightarrow> nat \<Rightarrow> 's \<Rightarrow> 's option" where
  "launch k n s = launch_seq k [0..<n] s"

record Model =
  nq :: nat
  nv :: nat
  nu :: nat
  na :: nat
  nbody :: nat
  njnt :: nat
  nM :: nat
  timestep :: real
  disable_flags :: int
  is_sparse :: bool
  qpos0 :: "real list"
  body_tree :: "nat list"
  body_leveladr :: "nat list"
  body_levelsize :: "nat list"
  body_jntadr :: "int list"
  body_jntnum :: "nat list"
  body_parentid :: "nat list"
  body_pos :: "vec3 list"
  body_quat :: "quat list"
  jnt_type :: "int list"
  jnt_qposadr :: "nat list"
  jnt_dofadr :: "nat list"
  jnt_axis :: "vec3 list"
  jnt_pos :: "vec3 list"
  dof_bodyid :: "nat list"
  dof_parentid :: "int list"
  dof_Madr :: "nat list"
  dof_armature :: "real list"
  dof_damping :: "real list"
  actuator_actlimited :: "bool list"
  actuator_actrange :: "real list list"
  actuator_actadr :: "int list"
  actuator_dyntype :: "int list"
  actuator_dynprm :: "real list list"
  qLD_updates :: "(nat \<times> nat \<times> nat) list"
  qLD_leveladr :: "nat list"
  qLD_levelsize :: "nat list"

record Data =
  time :: real
  qpos :: "real list"
  qvel :: "real list"
  qacc :: "real list"
  act :: "real list"
  act_dot :: "real list"
  qacc_eulerdamp :: "real list"
  qfrc_eulerdamp :: "real list"
  qfrc_smooth :: "real list"
  qfrc_constraint :: "real list"
  qM :: "real list list"
  xpos :: "vec3 list"
  xquat :: "quat list"
  xmat :: "mat33 list"
  xanchor :: "vec3 list"
  xaxis :: "vec3 list"
  xipos :: "vec3 list"
  ximat :: "mat33 list"
  cinert :: "vec10 list"
  crb :: "vec10 list"
  cdof :: "spatial_vector list"

section \<open>Warp built-ins\<close>

text \<open>
  The functions of the \<^verbatim>\<open>wp\<close> namespace that the kernels call, as Warp documents
  them. \<^verbatim>\<open>wp.select(cond, a, b)\<close> returns \<open>a\<close> when \<open>cond\<close> is false and \<open>b\<close>
  otherwise. \<^verbatim>\<open>wp.normalize\<close> divides by the length when it is positive; on a
  vector of length zero it returns the zero vector, on a quaternion of length zero the
  quaternion whose last component is one.

  The numbers of the kernels are float32 and are real numbers here, so that rounding is
  left out. One effect of the range of float32 is kept, in \<^verbatim>\<open>wp.normalize\<close> of a
  quaternion: a squared length above \<open>FLT_MAX\<close>, the largest float32, is infinite in
  float32 and so is the length; the test that the length is positive succeeds, the
  reciprocal of the length is zero and every component is multiplied by zero.
\<close>

definition wp_select :: "bool \<Rightarrow> 'a \<Rightarrow> 'a \<Rightarrow> 'a" where
  "wp_select cond a b = (if cond then b else a)"

datatype xfloat = NInf | Fin real | PInf

fun xmax :: "xfloat \<Rightarrow> xfloat \<Rightarrow> xfloat" where
  "xmax PInf _ = PInf"
| "xmax _ PInf = PInf"
| "xmax NInf y = y"
| "xmax x NInf = x"
| "xmax (Fin a) (Fin b) = Fin (max a b)"

fun xmin :: "xfloat \<Rightarrow> xfloat \<Rightarrow> xfloat" where
  "xmin NInf _ = NInf"
| "xmin _ NInf = NInf"
| "xmin PInf y = y"
| "xmin x PInf = x"
| "xmin (Fin a) (Fin b) = Fin (min a b)"

definition wp_clamp :: "xfloat \<Rightarrow> xfloat \<Rightarrow> xfloat \<Rightarrow> xfloat" where
  "wp_clamp x low high = xmin (xmax x low) high"

fun wp_dot :: "vec3 \<Rightarrow> vec3 \<Rightarrow> real" where
  "wp_dot (a0, a1, a2) (b0, b1, b2) = a0 * b0 + a1 * b1 + a2 * b2"

fun wp_cross :: "vec3 \<Rightarrow> vec3 \<Rightarrow> vec3" where
  "wp_cross (a0, a1, a2) (b0, b1, b2) = (a1 * b2 - a2 * b1, a2 * b0 - a0 * b2, a0 * b1 - a1 * b0)"

fun smul :: "real \<Rightarrow> vec3 \<Rightarrow> vec3" where
  "smul c (a0, a1, a2) = (c * a0, c * a1, c * a2)"

definition wp_length :: "vec3 \<Rightarrow> real" where
  "wp_length v = sqrt (wp_dot v v)"

definition wp_normalize :: "vec3 \<Rightarrow> vec3" where
  "wp_normalize v = (if wp_length v > 0 then smul (1 / wp_length v) v else (0, 0, 0))"

fun quat_length :: "quat \<Rightarrow> real" where
  "quat_length (q0, q1, q2, q3) = sqrt (q0 * q0 + q1 * q1 + q2 * q2 + q3 * q3)"

fun quat_scale :: "real \<Rightarrow> quat \<Rightarrow> quat" where
  "quat_scale c (q0, q1, q2, q3) = (q0 * c, q1 * c, q2 * c, q3 * c)"

definition FLT_MAX :: real where
  "FLT_MAX = (2 ^ 24 - 1) * 2 ^ 104"

fun quat_norm2 :: "quat \<Rightarrow> real" where
  "quat_norm2 (q0, q1, q2, q3) = q0 * q0 + q1 * q1 + q2 * q2 + q3 * q3"

definition wp_normalize_quat :: "quat \<Rightarrow> quat" where
  "wp_normalize_quat q =
     (if FLT_MAX < quat_norm2 q then quat_scale 0 q
      else if quat_length q > 0 then quat_scale (1 / quat_length q) q else (0, 0, 0, 1))"

section \<open>math.py\<close>

fun mul_quat :: "quat \<Rightarrow> quat \<Rightarrow> quat" where
  "mul_quat (u0, u1, u2, u3) (v0, v1, v2, v3) =
     (u0 * v0 - u1 * v1 - u2 * v2 - u3 * v3,
      u0 * v1 + u1 * v0 + u2 * v3 - u3 * v2,
      u0 * v2 - u1 * v3 + u2 * v0 + u3 * v1,
      u0 * v3 + u1 * v2 - u2 * v1 + u3 * v0)"

fun rot_vec_quat :: "vec3 \<Rightarrow> quat \<Rightarrow> vec3" where
  "rot_vec_quat vec (q0, q1, q2, q3) =
     (let s = q0; u = (q1, q2, q3);
          r = smul 2 (smul (wp_dot u vec) u) + smul (s * s - wp_dot u u) vec;
          r = r + smul (2 * s) (wp_cross u vec)
      in r)"

fun axis_angle_to_quat :: "vec3 \<Rightarrow> real \<Rightarrow> quat" where
  "axis_angle_to_quat axis angle =
     (let s = sin (angle * (1 / 2)); c = cos (angle * (1 / 2));
          axis = smul s axis
      in (c, fst axis, fst (snd axis), snd (snd axis)))"

fun quat_to_mat :: "quat \<Rightarrow> mat33" where
  "quat_to_mat (q0, q1, q2, q3) =
     ((q0 * q0 + q1 * q1 - q2 * q2 - q3 * q3, 2 * (q1 * q2 - q0 * q3), 2 * (q1 * q3 + q0 * q2)),
      (2 * (q1 * q2 + q0 * q3), q0 * q0 - q1 * q1 + q2 * q2 - q3 * q3, 2 * (q2 * q3 - q0 * q1)),
      (2 * (q1 * q3 - q0 * q2), 2 * (q2 * q3 + q0 * q1), q0 * q0 - q1 * q1 - q2 * q2 + q3 * q3))"

fun mat_vec :: "mat33 \<Rightarrow> vec3 \<Rightarrow> vec3" where
  "mat_vec (r0, r1, r2) v = (wp_dot r0 v, wp_dot r1 v, wp_dot r2 v)"

section \<open>forward.py\<close>

definition WarpMjMinVal :: real where
  "WarpMjMinVal = 1 / 10 ^ 15"

text \<open>
  \<^verbatim>\<open>quat_integrate_wp\<close>: the angular velocity is split into length and direction, the
  rotation by \<open>dt\<close> times the length about the direction is composed on the right of
  \<open>q\<close>, and the product is normalised.
\<close>

definition quat_integrate_wp :: "quat \<Rightarrow> vec3 \<Rightarrow> real \<Rightarrow> quat" where
  "quat_integrate_wp q v dt =
     (let vnorm = wp_length v;
          v = wp_normalize v;
          angle = dt * vnorm;
          q_res = axis_angle_to_quat v angle;
          q_res = mul_quat q q_res
      in wp_normalize_quat q_res)"

text \<open>
  \<^verbatim>\<open>next_activation\<close>, the thread of actuator \<open>tid\<close>. The time constant of the
  filter-exact branch is named \<open>filterexact_tau\<close>. The value of \<^verbatim>\<open>wp.clamp\<close> is
  computed and dropped, as in the source, where the call is a statement of its own.
\<close>

definition filterexact_tau :: "real \<Rightarrow> real" where
  "filterexact_tau dyn_prm = wp_select (dyn_prm < WarpMjMinVal) dyn_prm WarpMjMinVal"

definition next_activation :: "Model \<Rightarrow> real list \<Rightarrow> Data \<Rightarrow> nat \<Rightarrow> Data option" where
  "next_activation m act_dot_in d tid = do {
     limited \<leftarrow> rd (actuator_actlimited m) tid;
     lo \<leftarrow> rd2 (actuator_actrange m) tid 0;
     hi \<leftarrow> rd2 (actuator_actrange m) tid 1;
     let range_low = wp_select limited NInf (Fin lo);
     let range_high = wp_select limited PInf (Fin hi);
     act_adr \<leftarrow> rd (actuator_actadr m) tid;
     if act_adr = - 1 then Some d
     else do {
       a \<leftarrow> rdi (act d) act_adr;
       a_dot \<leftarrow> rdi act_dot_in act_adr;
       dyn_type \<leftarrow> rd (actuator_dyntype m) tid;
       dyn_prm \<leftarrow> rd2 (actuator_dynprm m) tid 0;
       let a = (if dyn_type = 3
                then let tau = filterexact_tau dyn_prm
                     in a + a_dot * tau * (1 - exp (- timestep m / tau))
                else a + a_dot * timestep m);
       let dropped = wp_clamp (Fin a) range_low range_high;
       acts \<leftarrow> wri (act d) act_adr a;
       Some (d\<lparr>act := acts\<rparr>)
     }
   }"

definition advance_velocities :: "Model \<Rightarrow> real list \<Rightarrow> Data \<Rightarrow> nat \<Rightarrow> Data option" where
  "advance_velocities m qacc_in d tid = do {
     v \<leftarrow> rd (qvel d) tid;
     a \<leftarrow> rd qacc_in tid;
     qvel' \<leftarrow> wr (qvel d) tid (v + a * timestep m);
     Some (d\<lparr>qvel := qvel'\<rparr>)
   }"

text \<open>
  \<^verbatim>\<open>wp.vec3(a[i], a[i + 1], a[i + 2])\<close> and \<^verbatim>\<open>wp.quat(a[i], ..., a[i + 3])\<close>, and
  the componentwise stores of a vector and of a quaternion.
\<close>

definition rd_vec3 :: "real list \<Rightarrow> nat \<Rightarrow> vec3 option" where
  "rd_vec3 xs i = do {
     a \<leftarrow> rd xs i; b \<leftarrow> rd xs (i + 1); c \<leftarrow> rd xs (i + 2);
     Some (a, b, c)
   }"

definition rd_quat :: "real list \<Rightarrow> nat \<Rightarrow> quat option" where
  "rd_quat xs i = do {
     a \<leftarrow> rd xs i; b \<leftarrow> rd xs (i + 1); c \<leftarrow> rd xs (i + 2); e \<leftarrow> rd xs (i + 3);
     Some (a, b, c, e)
   }"

fun wr_vec3 :: "real list \<Rightarrow> nat \<Rightarrow> vec3 \<Rightarrow> real list option" where
  "wr_vec3 xs i (a, b, c) = do {
     xs \<leftarrow> wr xs i a; xs \<leftarrow> wr xs (i + 1) b; wr xs (i + 2) c
   }"

fun wr_quat :: "real list \<Rightarrow> nat \<Rightarrow> quat \<Rightarrow> real list option" where
  "wr_quat xs i (a, b, c, e) = do {
     xs \<leftarrow> wr xs i a; xs \<leftarrow> wr xs (i + 1) b; xs \<leftarrow> wr xs (i + 2) c; wr xs (i + 3) e
   }"

text \<open>\<^verbatim>\<open>integrate_joint_positions\<close>, the thread of joint \<open>tid\<close>.\<close>

definition integrate_joint_positions :: "Model \<Rightarrow> real list \<Rightarrow> Data \<Rightarrow> nat \<Rightarrow> Data option" where
  "integrate_joint_positions m qvel_in d tid = do {
     jnt_type \<leftarrow> rd (jnt_type m) tid;
     qpos_adr \<leftarrow> rd (jnt_qposadr m) tid;
     dof_adr \<leftarrow> rd (jnt_dofadr m) tid;
     if jnt_type = 0 then do {
       qpos_pos \<leftarrow> rd_vec3 (qpos d) qpos_adr;
       qvel_lin \<leftarrow> rd_vec3 qvel_in dof_adr;
       let qpos_new = qpos_pos + smul (timestep m) qvel_lin;
       qpos_quat \<leftarrow> rd_quat (qpos d) (qpos_adr + 3);
       qvel_ang \<leftarrow> rd_vec3 qvel_in (dof_adr + 3);
       let qpos_quat_new = quat_integrate_wp qpos_quat qvel_ang (timestep m);
       q \<leftarrow> wr_vec3 (qpos d) qpos_adr qpos_new;
       q \<leftarrow> wr_quat q (qpos_adr + 3) qpos_quat_new;
       Some (d\<lparr>qpos := q\<rparr>)
     } else if jnt_type = 1 then do {
       qpos_quat \<leftarrow> rd_quat (qpos d) qpos_adr;
       qvel_ang \<leftarrow> rd_vec3 qvel_in dof_adr;
       let qpos_quat_new = quat_integrate_wp qpos_quat qvel_ang (timestep m);
       q \<leftarrow> wr_quat (qpos d) qpos_adr qpos_quat_new;
       Some (d\<lparr>qpos := q\<rparr>)
     } else do {
       x \<leftarrow> rd (qpos d) qpos_adr;
       v \<leftarrow> rd qvel_in dof_adr;
       q \<leftarrow> wr (qpos d) qpos_adr (x + timestep m * v);
       Some (d\<lparr>qpos := q\<rparr>)
     }
   }"

text \<open>
  \<^verbatim>\<open>_advance\<close>. The optional argument \<^verbatim>\<open>qvel\<close> is an \<open>option\<close>; without it the
  positions are advanced with the velocities the second launch has just written.
\<close>

definition advance :: "Model \<Rightarrow> Data \<Rightarrow> real list \<Rightarrow> real list \<Rightarrow> real list option \<Rightarrow> Data option" where
  "advance m d act_dot_in qacc_in qvel_opt = do {
     d \<leftarrow> (if na m \<noteq> 0 then launch (next_activation m act_dot_in) (nu m) d else Some d);
     d \<leftarrow> launch (advance_velocities m qacc_in) (nv m) d;
     let qvel_in = (case qvel_opt of Some q \<Rightarrow> q | None \<Rightarrow> qvel d);
     d \<leftarrow> launch (integrate_joint_positions m qvel_in) (njnt m) d;
     Some (d\<lparr>time := time d + timestep m\<rparr>)
   }"

text \<open>
  The kernels of \<^verbatim>\<open>euler\<close>. \<^verbatim>\<open>add_damping_dense\<close> writes row \<open>0\<close> of \<^verbatim>\<open>d.qM\<close>
  at the address \<^verbatim>\<open>m.dof_Madr[tid]\<close> and reads the damping at that same address;
  \<^verbatim>\<open>add_damping_sparse\<close> writes the entry \<open>(tid, tid)\<close>.
\<close>

definition add_damping_dense :: "Model \<Rightarrow> Data \<Rightarrow> nat \<Rightarrow> Data option" where
  "add_damping_dense m d tid = do {
     dof_Madr \<leftarrow> rd (dof_Madr m) tid;
     damping \<leftarrow> rd (dof_damping m) dof_Madr;
     old \<leftarrow> rd2 (qM d) 0 dof_Madr;
     qM' \<leftarrow> wr2 (qM d) 0 dof_Madr (old + timestep m * damping);
     Some (d\<lparr>qM := qM'\<rparr>)
   }"

definition add_damping_sparse :: "Model \<Rightarrow> Data \<Rightarrow> nat \<Rightarrow> Data option" where
  "add_damping_sparse m d tid = do {
     damping \<leftarrow> rd (dof_damping m) tid;
     old \<leftarrow> rd2 (qM d) tid tid;
     qM' \<leftarrow> wr2 (qM d) tid tid (old + timestep m * damping);
     Some (d\<lparr>qM := qM'\<rparr>)
   }"

definition sum_qfrc :: "Model \<Rightarrow> Data \<Rightarrow> nat \<Rightarrow> Data option" where
  "sum_qfrc m d tid = do {
     s \<leftarrow> rd (qfrc_smooth d) tid;
     c \<leftarrow> rd (qfrc_constraint d) tid;
     q \<leftarrow> wr (qfrc_eulerdamp d) tid (s + c);
     Some (d\<lparr>qfrc_eulerdamp := q\<rparr>)
   }"

text \<open>
  \<^verbatim>\<open>wp.copy(dest, src)\<close> copies the whole of \<open>src\<close> to the front of \<open>dest\<close> and
  fails when \<open>dest\<close> is the shorter one.
\<close>

definition wp_copy :: "'a list \<Rightarrow> 'a list \<Rightarrow> 'a list option" where
  "wp_copy dest src =
     (if length src \<le> length dest then Some (src @ drop (length src) dest) else None)"

text \<open>
  The damping stage of \<^verbatim>\<open>euler\<close>: the launch that adds the damping to \<^verbatim>\<open>d.qM\<close>,
  chosen by \<^verbatim>\<open>m.is_sparse\<close> as the source chooses it, and the launch of
  \<^verbatim>\<open>sum_qfrc\<close>.
\<close>

definition euler_damping :: "Model \<Rightarrow> Data \<Rightarrow> Data option" where
  "euler_damping m d = do {
     d \<leftarrow> (if is_sparse m then launch (add_damping_dense m) (nM m) d
           else launch (add_damping_sparse m) (nv m) d);
     launch (sum_qfrc m) (nv m) d
   }"

text \<open>
  \<^verbatim>\<open>euler\<close>. The constant \<^verbatim>\<open>types.MJ_DSBL_EULERDAMP\<close> is not declared in
  \<^verbatim>\<open>types.py\<close> and is the parameter \<open>dsbl_eulerdamp\<close>. The two calls
  \<^verbatim>\<open>smooth.factor_m(m, d)\<close> and \<^verbatim>\<open>smooth.solve_m(m, d, d.qacc_eulerdamp,
  d.qfrc_eulerdamp)\<close> do not have the parameters of the functions of these names in
  \<^verbatim>\<open>smooth.py\<close> (which take \<^verbatim>\<open>qM\<close>, \<^verbatim>\<open>qLD\<close> and \<^verbatim>\<open>qLDiagInv\<close> as well);
  the pair of calls is the parameter \<open>factor_solve\<close>.
\<close>

definition euler :: "int \<Rightarrow> (Model \<Rightarrow> Data \<Rightarrow> Data option) \<Rightarrow> Model \<Rightarrow> Data \<Rightarrow> Data option" where
  "euler dsbl_eulerdamp factor_solve m d = do {
     q \<leftarrow> wp_copy (qacc_eulerdamp d) (qacc d);
     let d = d\<lparr>qacc_eulerdamp := q\<rparr>;
     d \<leftarrow> (if (disable_flags m AND dsbl_eulerdamp) = 0
           then do { d \<leftarrow> euler_damping m d; factor_solve m d }
           else Some d);
     advance m d (act_dot d) (qacc_eulerdamp d) None
   }"

section \<open>smooth.py: kinematics\<close>

definition identity33 :: mat33 where
  "identity33 = ((1, 0, 0), (0, 1, 0), (0, 0, 1))"

text \<open>\<^verbatim>\<open>_root\<close>: the pose of body \<open>0\<close>.\<close>

definition kinematics_root :: "Data \<Rightarrow> Data option" where
  "kinematics_root d = do {
     xp \<leftarrow> wr (xpos d) 0 (0, 0, 0);
     xq \<leftarrow> wr (xquat d) 0 (1, 0, 0, 0);
     xi \<leftarrow> wr (xipos d) 0 (0, 0, 0);
     xm \<leftarrow> wr (xmat d) 0 identity33;
     xim \<leftarrow> wr (ximat d) 0 identity33;
     Some (d\<lparr>xpos := xp, xquat := xq, xipos := xi, xmat := xm, ximat := xim\<rparr>)
   }"

text \<open>
  One round of the loop \<^verbatim>\<open>for _ in range(jntnum)\<close> of \<^verbatim>\<open>_level\<close>, on the local
  variables \<^verbatim>\<open>xpos\<close>, \<^verbatim>\<open>xquat\<close> and \<^verbatim>\<open>jntadr\<close> (here \<open>pos\<close>, \<open>quat\<close> and
  \<open>jntadr\<close>). Only a joint of type \<open>3\<close> (hinge) changes \<open>pos\<close> and \<open>quat\<close>.
\<close>

definition level_joint ::
  "Model \<Rightarrow> Data \<Rightarrow> vec3 \<times> quat \<times> int \<Rightarrow> (Data \<times> vec3 \<times> quat \<times> int) option" where
  "level_joint m d st = (case st of (pos, quat, jntadr) \<Rightarrow> do {
     qadr \<leftarrow> rdi (jnt_qposadr m) jntadr;
     jnt_type \<leftarrow> rdi (jnt_type m) jntadr;
     jpos \<leftarrow> rdi (jnt_pos m) jntadr;
     jaxis \<leftarrow> rdi (jnt_axis m) jntadr;
     let anchor = rot_vec_quat jpos quat + pos;
     let axis = rot_vec_quat jaxis quat;
     (pos, quat) \<leftarrow> (if jnt_type = 3 then do {
         q \<leftarrow> rd (qpos d) qadr;
         q0 \<leftarrow> rd (qpos0 m) qadr;
         let qloc = axis_angle_to_quat jaxis (q - q0);
         let quat = mul_quat quat qloc;
         let pos = anchor - rot_vec_quat jpos quat;
         Some (pos, quat)
       } else Some (pos, quat));
     xa \<leftarrow> wri (xanchor d) jntadr anchor;
     xx \<leftarrow> wri (xaxis d) jntadr axis;
     Some (d\<lparr>xanchor := xa, xaxis := xx\<rparr>, pos, quat, jntadr + 1)
   })"

fun level_joints ::
  "Model \<Rightarrow> nat \<Rightarrow> Data \<Rightarrow> vec3 \<times> quat \<times> int \<Rightarrow> (Data \<times> vec3 \<times> quat \<times> int) option" where
  "level_joints m 0 d st = Some (d, st)"
| "level_joints m (Suc n) d st = do {
     (d, st) \<leftarrow> level_joint m d st;
     level_joints m n d st
   }"

text \<open>
  \<^verbatim>\<open>_level\<close>, the thread of node \<open>nodeid\<close> of the level that starts at \<open>leveladr\<close>.
  The test \<^verbatim>\<open>jntnum == 1 and m.jnt_type[jntadr] == 0\<close> reads the joint type only
  when the body has one joint.
\<close>

definition kinematics_level :: "Model \<Rightarrow> nat \<Rightarrow> Data \<Rightarrow> nat \<Rightarrow> Data option" where
  "kinematics_level m leveladr d nodeid = do {
     bodyid \<leftarrow> rd (body_tree m) (leveladr + nodeid);
     jntadr \<leftarrow> rd (body_jntadr m) bodyid;
     jntnum \<leftarrow> rd (body_jntnum m) bodyid;
     free \<leftarrow> (if jntnum = 1 then do { t \<leftarrow> rdi (jnt_type m) jntadr; Some (t = 0) }
              else Some False);
     (d, pos, quat, jntadr) \<leftarrow> (if free then do {
         qadr \<leftarrow> rdi (jnt_qposadr m) jntadr;
         pos \<leftarrow> rd_vec3 (qpos d) qadr;
         quat \<leftarrow> rd_quat (qpos d) (qadr + 3);
         xa \<leftarrow> wri (xanchor d) jntadr pos;
         jaxis \<leftarrow> rdi (jnt_axis m) jntadr;
         xx \<leftarrow> wri (xaxis d) jntadr jaxis;
         Some (d\<lparr>xanchor := xa, xaxis := xx\<rparr>, pos, quat, jntadr)
       } else do {
         pid \<leftarrow> rd (body_parentid m) bodyid;
         pmat \<leftarrow> rd (xmat d) pid;
         bpos \<leftarrow> rd (body_pos m) bodyid;
         ppos \<leftarrow> rd (xpos d) pid;
         let pos = mat_vec pmat bpos + ppos;
         pquat \<leftarrow> rd (xquat d) pid;
         bquat \<leftarrow> rd (body_quat m) bodyid;
         let quat = mul_quat pquat bquat;
         level_joints m jntnum d (pos, quat, jntadr)
       });
     xp \<leftarrow> wr (xpos d) bodyid pos;
     xq \<leftarrow> wr (xquat d) bodyid (wp_normalize_quat quat);
     xm \<leftarrow> wr (xmat d) bodyid (quat_to_mat quat);
     Some (d\<lparr>xpos := xp, xquat := xq, xmat := xm\<rparr>)
   }"

text \<open>
  The launches of a list of levels, in the order of the list: \<open>k adr\<close> is the kernel
  for the level at \<open>adr\<close>.
\<close>

fun launch_levels ::
  "(nat \<Rightarrow> 's \<Rightarrow> nat \<Rightarrow> 's option) \<Rightarrow> (nat \<times> nat) list \<Rightarrow> 's \<Rightarrow> 's option" where
  "launch_levels k [] s = Some s"
| "launch_levels k ((adr, sz) # ls) s = do { s \<leftarrow> launch (k adr) sz s; launch_levels k ls s }"

definition kinematics :: "Model \<Rightarrow> Data \<Rightarrow> Data option" where
  "kinematics m d = do {
     d \<leftarrow> kinematics_root d;
     launch_levels (kinematics_level m) (zip (body_leveladr m) (body_levelsize m)) d
   }"

section \<open>smooth.py: crb\<close>

text \<open>
  \<^verbatim>\<open>crb_accumulate\<close>, the thread of node \<open>nodeid\<close> of the level at \<open>leveladr\<close>;
  \<open>crb_accumulate_body\<close> is the thread once it has read its body id. A body whose
  parent is body \<open>0\<close> returns without adding anything.
\<close>

definition crb_accumulate_body :: "Model \<Rightarrow> Data \<Rightarrow> nat \<Rightarrow> Data option" where
  "crb_accumulate_body m d bodyid = do {
     pid \<leftarrow> rd (body_parentid m) bodyid;
     if pid = 0 then Some d
     else do {
       c \<leftarrow> rd (crb d) bodyid;
       p \<leftarrow> rd (crb d) pid;
       crb' \<leftarrow> wr (crb d) pid (p + c);
       Some (d\<lparr>crb := crb'\<rparr>)
     }
   }"

definition crb_accumulate :: "Model \<Rightarrow> nat \<Rightarrow> Data \<Rightarrow> nat \<Rightarrow> Data option" where
  "crb_accumulate m leveladr d nodeid = do {
     bodyid \<leftarrow> rd (body_tree m) (leveladr + nodeid);
     crb_accumulate_body m d bodyid
   }"

text \<open>
  \<^verbatim>\<open>wp.dot\<close> of two spatial vectors, and \<^verbatim>\<open>mju_mulInertVec\<close> as
  \<^verbatim>\<open>qM_sparse\<close> writes it out (the same expressions as \<^verbatim>\<open>math.inert_vec\<close>).
\<close>

fun sdot :: "spatial_vector \<Rightarrow> spatial_vector \<Rightarrow> real" where
  "sdot (a0, a1, a2, a3, a4, a5) (b0, b1, b2, b3, b4, b5) =
     a0 * b0 + a1 * b1 + a2 * b2 + a3 * b3 + a4 * b4 + a5 * b5"

fun inert_vec :: "vec10 \<Rightarrow> spatial_vector \<Rightarrow> spatial_vector" where
  "inert_vec (i0, i1, i2, i3, i4, i5, i6, i7, i8, i9) (v0, v1, v2, v3, v4, v5) =
     (i0 * v0 + i3 * v1 + i4 * v2 - i8 * v4 + i7 * v5,
      i3 * v0 + i1 * v1 + i5 * v2 + i8 * v3 - i6 * v5,
      i4 * v0 + i5 * v1 + i2 * v2 - i7 * v3 + i6 * v4,
      i8 * v1 - i7 * v2 + i9 * v3,
      i6 * v2 - i8 * v0 + i9 * v4,
      i7 * v0 - i6 * v1 + i9 * v5)"

text \<open>
  The loop \<^verbatim>\<open>while dofid >= 0\<close> of \<^verbatim>\<open>qM_sparse\<close>, which walks the ancestors of
  a degree of freedom; a walk that never reaches a negative parent does not return.
\<close>

partial_function (option) qM_ancestors ::
  "Model \<Rightarrow> spatial_vector list \<Rightarrow> spatial_vector \<Rightarrow> int \<Rightarrow> nat \<Rightarrow> real list list
     \<Rightarrow> real list list option" where
  "qM_ancestors m cdofs buf dofid madr_ij M =
     (if 0 \<le> dofid then do {
        c \<leftarrow> rdi cdofs dofid;
        old \<leftarrow> rd2 M 0 madr_ij;
        M \<leftarrow> wr2 M 0 madr_ij (old + sdot c buf);
        p \<leftarrow> rdi (dof_parentid m) dofid;
        qM_ancestors m cdofs buf p (madr_ij + 1) M
      } else Some M)"

definition qM_sparse :: "Model \<Rightarrow> Data \<Rightarrow> nat \<Rightarrow> Data option" where
  "qM_sparse m d dofid = do {
     madr_ij \<leftarrow> rd (dof_Madr m) dofid;
     bodyid \<leftarrow> rd (dof_bodyid m) dofid;
     armature \<leftarrow> rd (dof_armature m) dofid;
     M \<leftarrow> wr2 (qM d) 0 madr_ij armature;
     i \<leftarrow> rd (crb d) bodyid;
     v \<leftarrow> rd (cdof d) dofid;
     let buf = inert_vec i v;
     M \<leftarrow> qM_ancestors m (cdof d) buf (int dofid) madr_ij M;
     Some (d\<lparr>qM := M\<rparr>)
   }"

text \<open>
  The loop \<^verbatim>\<open>for i in range(len(leveladr) - 1, -1, -1)\<close> reads
  \<^verbatim>\<open>leveladr[i]\<close> and \<^verbatim>\<open>levelsize[i]\<close>: the levels from the last to the first.
\<close>

definition levels_backwards :: "nat list \<Rightarrow> nat list \<Rightarrow> (nat \<times> nat) list option" where
  "levels_backwards leveladr levelsize =
     (if length leveladr \<le> length levelsize then Some (rev (zip leveladr levelsize))
      else None)"

definition crb_fn :: "Model \<Rightarrow> Data \<Rightarrow> Data option" where
  "crb_fn m d = do {
     c \<leftarrow> wp_copy (crb d) (cinert d);
     let d = d\<lparr>crb := c\<rparr>;
     levels \<leftarrow> levels_backwards (body_leveladr m) (body_levelsize m);
     d \<leftarrow> launch_levels (crb_accumulate m) levels d;
     let d = d\<lparr>qM := map (map (\<lambda>x. 0)) (qM d)\<rparr>;
     launch (qM_sparse m) (nv m) d
   }"

section \<open>Body trees\<close>

text \<open>
  The body tree that the model builder hands over. \<open>depth\<close> counts the steps from a
  body to body \<open>0\<close>; \<open>level_nodes m l\<close> is the slice of \<^verbatim>\<open>m.body_tree\<close> for level
  \<open>l\<close>. In a well-formed tree body \<open>0\<close> is its own parent, every other body has a parent
  of smaller index, and level \<open>l\<close> lists the bodies of depth \<open>l\<close>, each once.
\<close>

function depth :: "nat list \<Rightarrow> nat \<Rightarrow> nat" where
  "depth par b = (if b \<noteq> 0 \<and> par ! b < b then Suc (depth par (par ! b)) else 0)"
  by pat_completeness auto
termination
  by (relation "measure snd") auto

definition level_nodes :: "Model \<Rightarrow> nat \<Rightarrow> nat list" where
  "level_nodes m l =
     map (\<lambda>k. body_tree m ! (body_leveladr m ! l + k)) [0..<body_levelsize m ! l]"

definition wf_tree :: "Model \<Rightarrow> bool" where
  "wf_tree m =
     (length (body_parentid m) = nbody m \<and> 0 < nbody m \<and> body_parentid m ! 0 = 0 \<and>
      (\<forall>b. 0 < b \<and> b < nbody m \<longrightarrow> body_parentid m ! b < b) \<and>
      length (body_leveladr m) = length (body_levelsize m) \<and>
      (\<forall>l < length (body_leveladr m).
         body_leveladr m ! l + body_levelsize m ! l \<le> length (body_tree m) \<and>
         distinct (level_nodes m l) \<and>
         set (level_nodes m l) = {b. b < nbody m \<and> depth (body_parentid m) b = l}) \<and>
      (\<forall>b < nbody m. depth (body_parentid m) b < length (body_leveladr m)))"

text \<open>
  \<open>is_ancestor par b c\<close>: the chain of parents of \<open>c\<close> passes through \<open>b\<close>. The
  subtree of \<open>b\<close> is the set of these \<open>c\<close>, the children of \<open>b\<close> are the bodies
  whose parent is \<open>b\<close>; \<open>subtree_sum\<close> adds a value per body over the subtree,
  children first.
\<close>

function is_ancestor :: "nat list \<Rightarrow> nat \<Rightarrow> nat \<Rightarrow> bool" where
  "is_ancestor par b c =
     (if c = b then True
      else if c \<noteq> 0 \<and> par ! c < c then is_ancestor par b (par ! c) else False)"
  by pat_completeness auto
termination
  by (relation "measure (\<lambda>(par, b, c). c)") auto

definition subtree :: "Model \<Rightarrow> nat \<Rightarrow> nat set" where
  "subtree m b = {c. c < nbody m \<and> is_ancestor (body_parentid m) b c}"

definition children :: "Model \<Rightarrow> nat \<Rightarrow> nat set" where
  "children m b = {c. c < nbody m \<and> body_parentid m ! c = b}"

function subtree_sum :: "nat list \<Rightarrow> 'a list \<Rightarrow> nat \<Rightarrow> 'a::comm_monoid_add" where
  "subtree_sum par xs b =
     xs ! b + sum_list (map (subtree_sum par xs) (filter (\<lambda>c. b < c \<and> par ! c = b) [0..<length par]))"
  by pat_completeness auto
termination
  by (relation "measure (\<lambda>(par, xs, b). length par - b)") auto

text \<open>What one thread of \<^verbatim>\<open>crb_accumulate\<close> does to the array \<^verbatim>\<open>d.crb\<close>.\<close>

definition acc_step :: "nat list \<Rightarrow> 'a::comm_monoid_add list \<Rightarrow> nat \<Rightarrow> 'a list" where
  "acc_step par xs c = (if par ! c = 0 then xs else xs[par ! c := xs ! (par ! c) + xs ! c])"

section \<open>smooth.py: solve_m\<close>

text \<open>
  The kernel \<^verbatim>\<open>solve_m_sparse\<close> of one world. Its three \<^verbatim>\<open>for\<close> loops run over
  the degrees of freedom (the same iteration as the threads of a launch, in the order of
  the list), its two \<^verbatim>\<open>while\<close> loops walk the ancestors of a degree of freedom and
  do not return when the chain of parents never reaches a negative index. The packed
  factor is row \<open>0\<close> of \<^verbatim>\<open>qLD\<close>.
\<close>

partial_function (option) solve_LT_walk ::
  "Model \<Rightarrow> real list list \<Rightarrow> nat \<Rightarrow> int \<Rightarrow> nat \<Rightarrow> real list \<Rightarrow> real list option" where
  "solve_LT_walk m qLD i j madr_ij y =
     (if 0 \<le> j then do {
        yj \<leftarrow> rdi y j;
        l \<leftarrow> rd2 qLD 0 madr_ij;
        yi \<leftarrow> rd y i;
        y \<leftarrow> wri y j (yj - l * yi);
        p \<leftarrow> rdi (dof_parentid m) j;
        solve_LT_walk m qLD i p (madr_ij + 1) y
      } else Some y)"

definition solve_LT_row :: "Model \<Rightarrow> real list list \<Rightarrow> real list \<Rightarrow> nat \<Rightarrow> real list option" where
  "solve_LT_row m qLD y i = do {
     madr \<leftarrow> rd (dof_Madr m) i;
     j \<leftarrow> rd (dof_parentid m) i;
     solve_LT_walk m qLD i j (madr + 1) y
   }"

definition solve_D_row :: "real list \<Rightarrow> real list \<Rightarrow> nat \<Rightarrow> real list option" where
  "solve_D_row qLDiagInv y i = do {
     yi \<leftarrow> rd y i;
     dinv \<leftarrow> rd qLDiagInv i;
     wr y i (yi * dinv)
   }"

partial_function (option) solve_L_walk ::
  "Model \<Rightarrow> real list list \<Rightarrow> nat \<Rightarrow> int \<Rightarrow> nat \<Rightarrow> real list \<Rightarrow> real list option" where
  "solve_L_walk m qLD i j madr_ij y =
     (if 0 \<le> j then do {
        yi \<leftarrow> rd y i;
        l \<leftarrow> rd2 qLD 0 madr_ij;
        yj \<leftarrow> rdi y j;
        y \<leftarrow> wr y i (yi - l * yj);
        p \<leftarrow> rdi (dof_parentid m) j;
        solve_L_walk m qLD i p (madr_ij + 1) y
      } else Some y)"

definition solve_L_row :: "Model \<Rightarrow> real list list \<Rightarrow> real list \<Rightarrow> nat \<Rightarrow> real list option" where
  "solve_L_row m qLD y i = do {
     madr \<leftarrow> rd (dof_Madr m) i;
     j \<leftarrow> rd (dof_parentid m) i;
     solve_L_walk m qLD i j (madr + 1) y
   }"

definition solve_m_sparse ::
  "Model \<Rightarrow> real list list \<Rightarrow> real list \<Rightarrow> real list \<Rightarrow> real list option" where
  "solve_m_sparse m qLD qLDiagInv y = do {
     y \<leftarrow> launch_seq (solve_LT_row m qLD) (rev [0..<nv m]) y;
     y \<leftarrow> launch_seq (solve_D_row qLDiagInv) [0..<nv m] y;
     launch_seq (solve_L_row m qLD) [0..<nv m] y
   }"

text \<open>
  The kernel \<^verbatim>\<open>solve_m_dense\<close> of one world. \<^verbatim>\<open>wp.tile_load\<close> reads a tile of
  the given shape from the front of an array, \<^verbatim>\<open>wp.tile_store\<close> writes a tile to the
  front of an array; \<^verbatim>\<open>wp.tile_cholesky_solve\<close> is a Warp built-in and a parameter
  here.
\<close>

definition tile_load :: "'a list \<Rightarrow> nat \<Rightarrow> 'a list option" where
  "tile_load xs n = (if n \<le> length xs then Some (take n xs) else None)"

definition tile_load2 :: "'a list list \<Rightarrow> nat \<Rightarrow> nat \<Rightarrow> 'a list list option" where
  "tile_load2 xss n k =
     (if n \<le> length xss \<and> (\<forall>row \<in> set (take n xss). k \<le> length row)
      then Some (map (take k) (take n xss)) else None)"

definition tile_store :: "'a list \<Rightarrow> 'a list \<Rightarrow> 'a list option" where
  "tile_store dest t = (if length t \<le> length dest then Some (t @ drop (length t) dest) else None)"

definition solve_m_dense ::
  "(real list list \<Rightarrow> real list \<Rightarrow> real list) \<Rightarrow> nat \<Rightarrow> real list list \<Rightarrow> real list \<Rightarrow> real list
     \<Rightarrow> real list option" where
  "solve_m_dense tile_cholesky_solve TILE qLD x y = do {
     qLD_tile \<leftarrow> tile_load2 qLD TILE TILE;
     x_tile \<leftarrow> tile_load x TILE;
     let y_tile = tile_cholesky_solve qLD_tile x_tile;
     tile_store y y_tile
   }"

text \<open>
  \<^verbatim>\<open>solve_m\<close>. The arguments \<^verbatim>\<open>x\<close> and \<^verbatim>\<open>y\<close> are arrays that the caller
  owns: here they are addresses in a store of arrays, so that \<^verbatim>\<open>x\<close> and \<^verbatim>\<open>y\<close>
  may be the same array.
\<close>

type_synonym store = "nat \<Rightarrow> real list option"

definition solve_m ::
  "(real list list \<Rightarrow> real list \<Rightarrow> real list) \<Rightarrow> Model \<Rightarrow> real list list \<Rightarrow> real list \<Rightarrow> nat \<Rightarrow> nat
     \<Rightarrow> store \<Rightarrow> store option" where
  "solve_m tile_cholesky_solve m qLD qLDiagInv x y st =
     (if is_sparse m then do {
        src \<leftarrow> st x;
        dest \<leftarrow> st y;
        c \<leftarrow> wp_copy dest src;
        yv \<leftarrow> solve_m_sparse m qLD qLDiagInv c;
        Some (st(y \<mapsto> yv))
      } else do {
        xv \<leftarrow> st x;
        yv \<leftarrow> st y;
        yv \<leftarrow> solve_m_dense tile_cholesky_solve (nv m) qLD xv yv;
        Some (st(y \<mapsto> yv))
      })"

section \<open>smooth.py: factor_m\<close>










section \<open>The packed factor\<close>

text \<open>
  \<open>dof_ancestors par i\<close> lists the proper ancestors of degree of freedom \<open>i\<close>, nearest
  first. The packed storage keeps, for row \<open>i\<close>, the diagonal entry at
  \<^verbatim>\<open>dof_Madr[i]\<close> and the entry for the \<open>t\<close>-th ancestor at
  \<^verbatim>\<open>dof_Madr[i] + 1 + t\<close>. \<open>Loff m q i j\<close> is the stored entry \<open>(i, j)\<close> below the
  diagonal (zero when \<open>j\<close> is no ancestor of \<open>i\<close>), \<open>Lmat\<close> the unit triangular
  matrix with these entries. \<open>wf_dofs\<close>: every parent is \<open>-1\<close> or a smaller index, and
  every row lies inside the packed array.
\<close>

function dof_ancestors :: "int list \<Rightarrow> nat \<Rightarrow> nat list" where
  "dof_ancestors par i =
     (if 0 \<le> par ! i \<and> par ! i < int i then nat (par ! i) # dof_ancestors par (nat (par ! i))
      else [])"
  by pat_completeness auto
termination
  by (relation "measure snd") auto

declare dof_ancestors.simps [simp del]

definition Loff :: "Model \<Rightarrow> real list \<Rightarrow> nat \<Rightarrow> nat \<Rightarrow> real" where
  "Loff m q i j =
     (\<Sum>t < length (dof_ancestors (dof_parentid m) i).
        if dof_ancestors (dof_parentid m) i ! t = j then q ! (dof_Madr m ! i + 1 + t) else 0)"

definition Lmat :: "Model \<Rightarrow> real list \<Rightarrow> nat \<Rightarrow> nat \<Rightarrow> real" where
  "Lmat m q i j = (if i = j then 1 else Loff m q i j)"

definition wf_dofs :: "Model \<Rightarrow> real list \<Rightarrow> bool" where
  "wf_dofs m q =
     (length (dof_parentid m) = nv m \<and> length (dof_Madr m) = nv m \<and>
      (\<forall>i < nv m. - 1 \<le> dof_parentid m ! i \<and> dof_parentid m ! i < int i \<and>
         dof_Madr m ! i + length (dof_ancestors (dof_parentid m) i) < length q))"

text \<open>
  The systems of the two paths, row \<open>j\<close> of the product applied to \<open>y\<close>. With \<open>L\<close> the
  unit lower triangular matrix \<open>Lmat\<close> of the packed factor and \<open>D\<close> the diagonal matrix
  of the inverses of \<^verbatim>\<open>qLDiagInv\<close>: \<open>LTDL\<close> is \<open>L\<^sup>T D L y\<close>, the system in the
  docstring of \<^verbatim>\<open>solve_m\<close> (\<^verbatim>\<open>inv(L'*D*L)\<close>), and \<open>LDLT\<close> is \<open>L D L\<^sup>T y\<close>. With \<open>L\<close>
  a dense lower triangular tile of \<open>n\<close> rows, \<open>LLT\<close> is \<open>L L\<^sup>T y\<close>, the system that
  \<^verbatim>\<open>wp.tile_cholesky_solve\<close> is documented to solve.
\<close>

definition LTDL :: "Model \<Rightarrow> real list \<Rightarrow> real list \<Rightarrow> real list \<Rightarrow> nat \<Rightarrow> real" where
  "LTDL m q dinv y j =
     (\<Sum>i < nv m. Lmat m q i j * (1 / dinv ! i) * (\<Sum>k < nv m. Lmat m q i k * y ! k))"

definition LDLT :: "Model \<Rightarrow> real list \<Rightarrow> real list \<Rightarrow> real list \<Rightarrow> nat \<Rightarrow> real" where
  "LDLT m q dinv y j =
     (\<Sum>i < nv m. Lmat m q j i * (1 / dinv ! i) * (\<Sum>k < nv m. Lmat m q k i * y ! k))"

definition LLT :: "nat \<Rightarrow> real list list \<Rightarrow> real list \<Rightarrow> nat \<Rightarrow> real" where
  "LLT n L y i = (\<Sum>j < n. (\<Sum>k < n. L ! i ! k * L ! j ! k) * y ! j)"

text \<open>
  The packed mass matrix and its factor. \<open>anc m i\<close> are the proper ancestors of degree of
  freedom \<open>i\<close> and \<open>chain m i\<close> is \<open>i\<close> followed by them: the columns of row \<open>i\<close> of
  the packed matrix, in the order of their addresses. \<open>pentry m q i a\<close> is the packed
  entry of row \<open>i\<close> in column \<open>a\<close>, and \<open>Mfull m q\<close> the symmetric matrix that the
  packed array \<open>q\<close> stands for. \<open>wf_layout\<close>: the rows follow each other in the packed
  array, row \<open>i\<close> with one entry for \<open>i\<close> and one for each ancestor.
\<close>

abbreviation anc :: "Model \<Rightarrow> nat \<Rightarrow> nat list" where
  "anc m i \<equiv> dof_ancestors (dof_parentid m) i"







text \<open>
  The factor in closed form. \<open>Dset m i\<close> are the descendants of \<open>i\<close>. \<open>Rrow m q i a\<close>
  is the entry \<open>(i, a)\<close> of the matrix after the rows of all descendants of \<open>i\<close> have
  been eliminated; the pivot of row \<open>i\<close> is \<open>Rrow m q i i\<close>, and \<open>Lf m q\<close> is the unit
  lower triangular matrix of the rows divided by their pivots.
\<close>

definition Dset :: "Model \<Rightarrow> nat \<Rightarrow> nat set" where
  "Dset m i = {c. c < nv m \<and> i \<in> set (dof_ancestors (dof_parentid m) c)}"










text \<open>Models and data for the concrete runs below: every array empty.\<close>

definition Model0 :: Model where
  "Model0 = \<lparr>nq = 0, nv = 0, nu = 0, na = 0, nbody = 0, njnt = 0, nM = 0, timestep = 0,
     disable_flags = 0, is_sparse = False, qpos0 = [], body_tree = [], body_leveladr = [],
     body_levelsize = [], body_jntadr = [], body_jntnum = [], body_parentid = [],
     body_pos = [], body_quat = [], jnt_type = [], jnt_qposadr = [], jnt_dofadr = [],
     jnt_axis = [], jnt_pos = [], dof_bodyid = [], dof_parentid = [], dof_Madr = [],
     dof_armature = [], dof_damping = [], actuator_actlimited = [], actuator_actrange = [],
     actuator_actadr = [], actuator_dyntype = [], actuator_dynprm = [], qLD_updates = [],
     qLD_leveladr = [], qLD_levelsize = []\<rparr>"

definition Data0 :: Data where
  "Data0 = \<lparr>time = 0, qpos = [], qvel = [], qacc = [], act = [], act_dot = [],
     qacc_eulerdamp = [], qfrc_eulerdamp = [], qfrc_smooth = [], qfrc_constraint = [],
     qM = [], xpos = [], xquat = [], xmat = [], xanchor = [], xaxis = [], xipos = [],
     ximat = [], cinert = [],
     crb = [], cdof = []\<rparr>"

text \<open>
  One limited actuator with range \<open>[0, 1]\<close>, explicit-Euler dynamics and time step
  \<open>1/2\<close>.
\<close>

definition m_act :: Model where
  "m_act = Model0\<lparr>nu := 1, na := 1, timestep := 1 / 2, actuator_actlimited := [True],
     actuator_actrange := [[0, 1]], actuator_actadr := [0], actuator_dyntype := [0],
     actuator_dynprm := [[1, 0, 0]]\<rparr>"

text \<open>The same actuator with filter-exact dynamics and a time constant of zero.\<close>

definition m_filter :: Model where
  "m_filter = m_act\<lparr>actuator_dyntype := [3], actuator_dynprm := [[0, 0, 0]]\<rparr>"

text \<open>
  A sparse model with four degrees of freedom: the second is a child of the first, the
  third and the fourth are roots, so that the packed mass matrix has five entries and
  the diagonal entries are at the addresses \<open>0, 1, 3, 4\<close>.
\<close>

definition m_damp :: Model where
  "m_damp = Model0\<lparr>nv := 4, nM := 5, timestep := 1, is_sparse := True,
     dof_parentid := [- 1, 0, - 1, - 1], dof_Madr := [0, 1, 3, 4],
     dof_damping := [1, 2, 3, 4]\<rparr>"

definition d_damp :: Data where
  "d_damp = Data0\<lparr>qM := [[10, 10, 10, 10, 10]]\<rparr>"

text \<open>
  A pendulum: one hinge joint, one degree of freedom, no actuator, implicit damping
  disabled (bit 14 of the disable flags).
\<close>

definition m_pend :: Model where
  "m_pend = Model0\<lparr>nq := 1, nv := 1, njnt := 1, nM := 1, timestep := 1 / 2,
     disable_flags := 16384, jnt_type := [3], jnt_qposadr := [0], jnt_dofadr := [0],
     dof_parentid := [- 1], dof_Madr := [0], dof_damping := [1]\<rparr>"

definition d_pend :: Data where
  "d_pend = Data0\<lparr>qpos := [0], qvel := [1], qacc := [1], qacc_eulerdamp := [0]\<rparr>"

text \<open>
  A body with one ball joint on the world body, rotated by half a turn about the first
  axis (\<^verbatim>\<open>qpos = [0, 1, 0, 0]\<close>).
\<close>

definition m_ball :: Model where
  "m_ball = Model0\<lparr>nq := 4, nv := 3, nbody := 2, njnt := 1, body_tree := [0, 1],
     body_leveladr := [0, 1], body_levelsize := [1, 1], body_jntadr := [- 1, 0],
     body_jntnum := [0, 1], body_parentid := [0, 0], body_pos := [(0, 0, 0), (0, 0, 0)],
     body_quat := [(1, 0, 0, 0), (1, 0, 0, 0)], jnt_type := [1], jnt_qposadr := [0],
     jnt_dofadr := [0], jnt_axis := [(0, 0, 1)], jnt_pos := [(0, 0, 0)],
     qpos0 := [1, 0, 0, 0]\<rparr>"

definition d_ball :: Data where
  "d_ball = Data0\<lparr>qpos := [0, 1, 0, 0], xpos := [(0, 0, 0), (0, 0, 0)],
     xquat := [(1, 0, 0, 0), (1, 0, 0, 0)], xmat := [identity33, identity33],
     xanchor := [(0, 0, 0)], xaxis := [(0, 0, 0)], xipos := [(0, 0, 0), (0, 0, 0)],
     ximat := [identity33, identity33]\<rparr>"

text \<open>
  A hinge joint about the third axis, anchored at \<open>(1, 0, 0)\<close>, turned by \<open>pi\<close>.
\<close>

definition m_hinge :: Model where
  "m_hinge = Model0\<lparr>nq := 1, nv := 1, nbody := 2, njnt := 1, jnt_type := [3],
     jnt_qposadr := [0], jnt_dofadr := [0], jnt_axis := [(0, 0, 1)], jnt_pos := [(1, 0, 0)],
     qpos0 := [0]\<rparr>"

definition d_hinge :: Data where
  "d_hinge = Data0\<lparr>qpos := [pi], xanchor := [(0, 0, 0)], xaxis := [(0, 0, 0)]\<rparr>"









text \<open>
  Four bodies: body \<open>1\<close> on the world body, bodies \<open>2\<close> and \<open>3\<close> on body \<open>1\<close>; one
  degree of freedom on body \<open>1\<close>. The inertias hold a mass only.
\<close>

definition mass_only :: "real \<Rightarrow> vec10" where
  "mass_only x = (0, 0, 0, 0, 0, 0, 0, 0, 0, x)"

definition m_tree :: Model where
  "m_tree = Model0\<lparr>nv := 1, nbody := 4, nM := 1, body_tree := [0, 1, 2, 3],
     body_leveladr := [0, 1, 2], body_levelsize := [1, 1, 2], body_parentid := [0, 0, 1, 1],
     dof_bodyid := [1], dof_parentid := [- 1], dof_Madr := [0], dof_armature := [1 / 10]\<rparr>"

definition d_tree :: Data where
  "d_tree = Data0\<lparr>qM := [[5]], cinert := [mass_only 1, mass_only 2, mass_only 4, mass_only 8],
     crb := [mass_only 0, mass_only 0, mass_only 0, mass_only 0],
     cdof := [(0, 0, 1, 0, 0, 0)]\<rparr>"

text \<open>
  Two degrees of freedom, the second a child of the first, in the sparse and in the dense
  representation, and a store with \<^verbatim>\<open>x\<close> at address \<open>0\<close> and \<^verbatim>\<open>y\<close> at address
  \<open>1\<close>.
\<close>

definition m_chain :: Model where
  "m_chain = Model0\<lparr>nv := 2, nM := 3, is_sparse := True, dof_parentid := [- 1, 0],
     dof_Madr := [0, 1]\<rparr>"

definition m_dense :: Model where
  "m_dense = Model0\<lparr>nv := 2, nM := 3, dof_parentid := [- 1, 0], dof_Madr := [0, 1]\<rparr>"

definition st_xy :: store where
  "st_xy = [0 \<mapsto> [1, 2], 1 \<mapsto> [0, 0]]"

text \<open>
  A function for the place of \<^verbatim>\<open>wp.tile_cholesky_solve\<close> in the concrete runs: forward
  substitution with the lower triangular tile \<open>L\<close>, then back substitution with its
  transpose.
\<close>

definition fwd_subst :: "real list list \<Rightarrow> real list \<Rightarrow> real list" where
  "fwd_subst L x =
     foldl (\<lambda>z i. z @ [(x ! i - sum_list (map (\<lambda>k. L ! i ! k * z ! k) [0..<i])) / L ! i ! i])
       [] [0..<length x]"

definition back_subst :: "real list list \<Rightarrow> real list \<Rightarrow> real list" where
  "back_subst L z =
     foldr (\<lambda>i y. y[i := (z ! i - sum_list (map (\<lambda>k. L ! k ! i * y ! k) [Suc i..<length z]))
                           / L ! i ! i])
       [0..<length z] z"

definition chol_solve :: "real list list \<Rightarrow> real list \<Rightarrow> real list" where
  "chol_solve L x = back_subst L (fwd_subst L x)"




section \<open>Arrays and launches\<close>

lemma rd_Some [simp]: "i < length xs \<Longrightarrow> rd xs i = Some (xs ! i)"
  by (simp add: rd_def)

lemma rd_eq_Some: "rd xs i = Some v \<longleftrightarrow> i < length xs \<and> v = xs ! i"
  by (auto simp: rd_def)

lemma wr_eq_Some: "wr xs i v = Some ys \<longleftrightarrow> i < length xs \<and> ys = xs[i := v]"
  by (auto simp: wr_def)

lemma launch_seq_append:
  "launch_seq k (ts @ us) s = (case launch_seq k ts s of None \<Rightarrow> None | Some s' \<Rightarrow> launch_seq k us s')"
  by (induction ts arbitrary: s) (auto split: option.splits)

lemma launch_Suc:
  "launch k (Suc n) s = (case launch k n s of None \<Rightarrow> None | Some s' \<Rightarrow> k s' n)"
  by (simp add: launch_def launch_seq_append split: option.splits)

lemma launch_0 [simp]: "launch k 0 s = Some s"
  by (simp add: launch_def)

lemma launch_preserves:
  assumes "launch k n s = Some s'" and "P s"
    and step: "\<And>s t s'. k s t = Some s' \<Longrightarrow> P s \<Longrightarrow> P s'"
  shows "P s'"
  using assms(1,2)
proof (induction n arbitrary: s')
  case 0
  then show ?case by simp
next
  case (Suc n)
  then show ?case
    by (auto simp: launch_Suc split: option.splits intro: step)
qed

lemma filterexact_tau_ge: "WarpMjMinVal \<le> filterexact_tau p"
  by (simp add: filterexact_tau_def wp_select_def)

lemma filterexact_tau_max: "filterexact_tau p = max p WarpMjMinVal"
  by (simp add: filterexact_tau_def wp_select_def max_def)

lemma wp_copy_nth: "wp_copy dest src = Some q \<Longrightarrow> t < length src \<Longrightarrow> q ! t = src ! t"
  by (auto simp: wp_copy_def nth_append split: if_splits)

section \<open>Activation\<close>

text \<open>
  Whatever the limits are, the thread stores the advanced value itself: the clamped value
  is never used.
\<close>

lemma next_activation_stores:
  assumes "rd (actuator_actadr m) tid = Some adr" and "adr \<noteq> - 1"
    and "rd (actuator_dyntype m) tid = Some ty" and "ty \<noteq> 3"
    and "next_activation m act_dot_in d tid = Some d'"
  shows "act d' ! nat adr = act d ! nat adr + act_dot_in ! nat adr * timestep m"
  using assms
  by (auto simp: next_activation_def Let_def rdi_def wri_def rd_eq_Some wr_eq_Some
      split: bind_splits if_splits)

text \<open>
  C3. A limited actuator with range \<open>[0, 1]\<close>, activation \<open>9/10\<close>, derivative \<open>1\<close> and
  time step \<open>1/2\<close>: the launch of \<^verbatim>\<open>next_activation\<close> stores \<open>7/5\<close>, which is above
  the upper limit. (The claim asks for a stored value within \<open>[0, 1]\<close>.)
\<close>

theorem next_activation_not_clamped:
  "map_option act (launch (next_activation m_act [1]) (nu m_act) (Data0\<lparr>act := [9 / 10]\<rparr>))
     = Some [7 / 5]"
  by (simp add: launch_def next_activation_def m_act_def Model0_def Data0_def rd2_def
      rdi_def wri_def wr_def)

text \<open>
  C9. For an actuator with filter-exact dynamics (type \<open>3\<close>) and an activation state,
  the thread of \<^verbatim>\<open>next_activation\<close> stores
  \<open>act + act_dot * tau * (1 - exp (- timestep / tau))\<close>, where the divisor \<open>tau\<close> is
  the larger of the dynamics parameter and \<open>1e-15\<close>, so it is never below \<open>1e-15\<close>.
\<close>

theorem next_activation_filterexact:
  assumes "rd (actuator_dyntype m) tid = Some 3"
    and "rd (actuator_actadr m) tid = Some adr" and "adr \<noteq> - 1"
    and "rd2 (actuator_dynprm m) tid 0 = Some p"
    and "next_activation m act_dot_in d tid = Some d'"
  shows "1 / 10 ^ 15 \<le> filterexact_tau p \<and> filterexact_tau p = max p (1 / 10 ^ 15) \<and>
         act d' ! nat adr = act d ! nat adr
            + act_dot_in ! nat adr * filterexact_tau p * (1 - exp (- timestep m / filterexact_tau p))"
proof -
  have tau: "1 / 10 ^ 15 \<le> filterexact_tau p" "filterexact_tau p = max p (1 / 10 ^ 15)"
    using filterexact_tau_ge [of p] filterexact_tau_max [of p] by (simp_all add: WarpMjMinVal_def)
  from assms have "act d' ! nat adr = act d ! nat adr
            + act_dot_in ! nat adr * filterexact_tau p * (1 - exp (- timestep m / filterexact_tau p))"
    by (auto simp: next_activation_def Let_def rdi_def wri_def rd_eq_Some wr_eq_Some
        split: bind_splits if_splits)
  with tau show ?thesis by blast
qed

theorem next_activation_filterexact_witness:
  "rd (actuator_dyntype m_filter) 0 = Some 3 \<and> rd (actuator_actadr m_filter) 0 = Some 0 \<and>
   rd2 (actuator_dynprm m_filter) 0 0 = Some 0 \<and>
   (\<exists>d'. next_activation m_filter [1] (Data0\<lparr>act := [9 / 10]\<rparr>) 0 = Some d' \<and>
      1 / 10 ^ 15 \<le> filterexact_tau 0 \<and>
      act d' ! 0 = 9 / 10 + 1 * filterexact_tau 0 * (1 - exp (- (1 / 2) / filterexact_tau 0)))"
proof -
  have a: "rd (actuator_dyntype m_filter) 0 = Some 3"
    and b: "rd (actuator_actadr m_filter) 0 = Some 0"
    and c: "rd2 (actuator_dynprm m_filter) 0 0 = Some 0"
    by (simp_all add: m_filter_def m_act_def Model0_def rd2_def)
  obtain d' where d': "next_activation m_filter [1] (Data0\<lparr>act := [9 / 10]\<rparr>) 0 = Some d'"
    by (simp add: next_activation_def m_filter_def m_act_def Model0_def Data0_def rd2_def
        rdi_def wri_def wr_def)
  have t: "timestep m_filter = 1 / 2"
    by (simp add: m_filter_def m_act_def)
  from next_activation_filterexact [OF a b _ c d'] t a b c d' show ?thesis
    by (simp add: Data0_def)
qed

section \<open>Euler\<close>

lemma next_activation_qvel: "next_activation m ad d tid = Some d' \<Longrightarrow> qvel d' = qvel d"
  by (auto simp: next_activation_def Let_def split: bind_splits if_splits)

lemma integrate_joint_positions_qvel:
  "integrate_joint_positions m qv d tid = Some d' \<Longrightarrow> qvel d' = qvel d"
  by (auto simp: integrate_joint_positions_def Let_def split: bind_splits if_splits)

lemma advance_velocities_launch:
  "launch (advance_velocities m qa) n d = Some d' \<Longrightarrow>
     length (qvel d') = length (qvel d) \<and>
     (\<forall>t. qvel d' ! t = (if t < n then qvel d ! t + qa ! t * timestep m else qvel d ! t))"
proof (induction n arbitrary: d')
  case 0
  then show ?case by simp
next
  case (Suc n)
  from Suc.prems obtain d1 where d1: "launch (advance_velocities m qa) n d = Some d1"
    and st: "advance_velocities m qa d1 n = Some d'"
    by (auto simp: launch_Suc split: option.splits)
  from st have "n < length (qvel d1)" and "qvel d' = (qvel d1)[n := qvel d1 ! n + qa ! n * timestep m]"
    by (auto simp: advance_velocities_def rd_eq_Some wr_eq_Some split: bind_splits)
  with Suc.IH [OF d1] show ?case
    by (auto simp: nth_list_update less_Suc_eq)
qed

text \<open>
  C5. When the disable flags hold the bit that disables implicit damping, one step of
  \<^verbatim>\<open>euler\<close> leaves in \<^verbatim>\<open>d.qvel\<close>, for every degree of freedom, the old velocity
  plus the time step times the acceleration \<^verbatim>\<open>d.qacc\<close> that was supplied.
\<close>

theorem euler_disabled_velocity:
  assumes dis: "(disable_flags m AND dsbl_eulerdamp) \<noteq> 0"
    and len: "length (qacc d) = nv m"
    and run: "euler dsbl_eulerdamp factor_solve m d = Some d'"
    and t: "t < nv m"
  shows "qvel d' ! t = qvel d ! t + qacc d ! t * timestep m"
proof -
  from run dis obtain q where q: "wp_copy (qacc_eulerdamp d) (qacc d) = Some q"
    and adv: "advance m (d\<lparr>qacc_eulerdamp := q\<rparr>) (act_dot d) q None = Some d'"
    by (auto simp: euler_def Let_def split: bind_splits)
  let ?d0 = "d\<lparr>qacc_eulerdamp := q\<rparr>"
  from adv obtain d1 d2 d3 where
    d1: "(if na m \<noteq> 0 then launch (next_activation m (act_dot d)) (nu m) ?d0 else Some ?d0) = Some d1"
    and d2: "launch (advance_velocities m q) (nv m) d1 = Some d2"
    and d3: "launch (integrate_joint_positions m (qvel d2)) (njnt m) d2 = Some d3"
    and d': "d' = d3\<lparr>time := time d3 + timestep m\<rparr>"
    by (auto simp: advance_def Let_def split: bind_splits)
  have "qvel d1 = qvel d"
  proof (cases "na m = 0")
    case True
    with d1 show ?thesis by auto
  next
    case False
    with d1 have "launch (next_activation m (act_dot d)) (nu m) ?d0 = Some d1" by simp
    then show ?thesis
      by (rule launch_preserves [where P = "\<lambda>s. qvel s = qvel d"])
        (auto dest: next_activation_qvel)
  qed
  moreover from advance_velocities_launch [OF d2] t
  have "qvel d2 ! t = qvel d1 ! t + q ! t * timestep m" by simp
  moreover have "qvel d3 = qvel d2"
    by (rule launch_preserves [where P = "\<lambda>s. qvel s = qvel d2", OF d3])
      (auto dest: integrate_joint_positions_qvel)
  moreover have "q ! t = qacc d ! t"
    using wp_copy_nth [OF q] t len by simp
  ultimately show ?thesis using d' by simp
qed

theorem euler_disabled_velocity_witness:
  "(disable_flags m_pend AND 16384) \<noteq> 0 \<and> length (qacc d_pend) = nv m_pend \<and>
   (\<exists>d'. euler 16384 (\<lambda>m d. None) m_pend d_pend = Some d' \<and> qvel d' ! 0 = 1 + 1 * (1 / 2))"
proof -
  have a: "(disable_flags m_pend AND 16384) \<noteq> 0"
    by (simp add: m_pend_def Model0_def)
  have b: "length (qacc d_pend) = nv m_pend"
    by (simp add: m_pend_def d_pend_def Model0_def Data0_def)
  obtain d' where d': "euler 16384 (\<lambda>m d. None) m_pend d_pend = Some d'"
    by (simp add: euler_def advance_def launch_def advance_velocities_def
        integrate_joint_positions_def wp_copy_def wr_def m_pend_def d_pend_def Model0_def
        Data0_def)
  have c: "(0::nat) < nv m_pend"
    by (simp add: m_pend_def)
  from euler_disabled_velocity [OF a b d' c] a b d' show ?thesis
    by (simp add: m_pend_def d_pend_def Data0_def)
qed

text \<open>
  C2. In the sparse representation \<^verbatim>\<open>euler\<close> launches \<^verbatim>\<open>add_damping_dense\<close> over
  \<^verbatim>\<open>m.nM\<close> threads. On the model \<open>m_damp\<close> thread \<open>2\<close> adds
  \<open>timestep * dof_damping[3] = 4\<close> to the diagonal entry of degree of freedom \<open>2\<close> (at
  address \<open>3\<close>), not \<open>timestep * dof_damping[2] = 3\<close>, and the launch as a whole reads
  \<^verbatim>\<open>m.dof_damping\<close> outside its four entries.
\<close>

theorem add_damping_sparse_model:
  "map_option qM (add_damping_dense m_damp d_damp 2) = Some [[10, 10, 10, 14, 10]] \<and>
   launch (add_damping_dense m_damp) (nM m_damp) d_damp = None"
  by (simp add: launch_def add_damping_dense_def m_damp_def d_damp_def Model0_def Data0_def
      rd2_def wr2_def wr_def rd_def upt_rec)

section \<open>Kinematics\<close>

text \<open>
  A joint that is not a hinge (a ball joint has type \<open>1\<close>) leaves the position and the
  orientation of its body as they were: the loop reads nothing of its \<^verbatim>\<open>qpos\<close>.
\<close>

lemma level_joint_other:
  assumes "rdi (jnt_type m) jntadr = Some t" and "t \<noteq> 3"
    and "level_joint m d (pos, quat, jntadr) = Some (d', pos', quat', jntadr')"
  shows "quat' = quat \<and> pos' = pos"
  using assms
  by (auto simp: level_joint_def Let_def split: bind_splits if_splits)

text \<open>
  C1. A body with one ball joint whose \<^verbatim>\<open>qpos\<close> segment holds the quaternion
  \<open>(0, 1, 0, 0)\<close>, on a parent with the identity pose: \<^verbatim>\<open>kinematics\<close> stores the
  orientation \<open>(1, 0, 0, 0)\<close> for the body, the parent-derived orientation alone. (The
  claim asks for its product with the joint's quaternion, \<open>(0, 1, 0, 0)\<close>.)
\<close>

theorem kinematics_ball:
  "map_option xquat (kinematics m_ball d_ball) = Some [(1, 0, 0, 0), (1, 0, 0, 0)]"
  by (simp add: kinematics_def kinematics_root_def kinematics_level_def level_joint_def
      launch_def m_ball_def d_ball_def Model0_def Data0_def identity33_def rdi_def wri_def
      wr_def rd_def wp_normalize_quat_def FLT_MAX_def zero_prod_def Let_def)

text \<open>
  C8. One round of the joint loop of \<^verbatim>\<open>_level\<close> on a hinge joint (type \<open>3\<close>): the
  anchor it stores in \<^verbatim>\<open>d.xanchor\<close> is the one computed before the rotation, and
  the joint's local anchor offset rotated by the updated quaternion, plus the updated
  position, is that same anchor.
\<close>

theorem level_joint_hinge:
  assumes "rdi (jnt_type m) jntadr = Some 3"
    and "rdi (jnt_pos m) jntadr = Some jpos"
    and "level_joint m d (pos, quat, jntadr) = Some (d', pos', quat', jntadr')"
  shows "xanchor d' ! nat jntadr = rot_vec_quat jpos quat + pos \<and>
         rot_vec_quat jpos quat' + pos' = xanchor d' ! nat jntadr"
  using assms
  by (auto simp: level_joint_def Let_def rdi_def wri_def rd_eq_Some wr_eq_Some
      split: bind_splits if_splits)

theorem level_joint_hinge_witness:
  "rdi (jnt_type m_hinge) 0 = Some 3 \<and> rdi (jnt_pos m_hinge) 0 = Some (1, 0, 0) \<and>
   (\<exists>d'. level_joint m_hinge d_hinge ((0, 0, 0), (1, 0, 0, 0), 0)
            = Some (d', (2, 0, 0), (0, 0, 0, 1), 1) \<and>
      xanchor d' ! 0 = (1, 0, 0) \<and> rot_vec_quat (1, 0, 0) (0, 0, 0, 1) + (2, 0, 0) = xanchor d' ! 0)"
proof -
  have a: "rdi (jnt_type m_hinge) 0 = Some 3" and b: "rdi (jnt_pos m_hinge) 0 = Some (1, 0, 0)"
    by (simp_all add: m_hinge_def Model0_def rdi_def)
  obtain d' where d': "level_joint m_hinge d_hinge ((0, 0, 0), (1, 0, 0, 0), 0)
            = Some (d', (2, 0, 0), (0, 0, 0, 1), 1)"
    by (simp add: level_joint_def m_hinge_def d_hinge_def Model0_def Data0_def rdi_def
        wri_def wr_def Let_def)
  note r = level_joint_hinge [OF a b d']
  have r1: "xanchor d' ! 0 = (1, 0, 0)"
    using r [THEN conjunct1] by (simp add: Let_def)
  have r2: "rot_vec_quat (1, 0, 0) (0, 0, 0, 1) + (2, 0, 0) = xanchor d' ! 0"
    using r [THEN conjunct2] by (simp only: nat_0)
  from a b d' r1 r2 show ?thesis
    by blast
qed

section \<open>Integration of the joint positions\<close>


























section \<open>Composite rigid body inertia\<close>

declare depth.simps [simp del]
declare subtree_sum.simps [simp del]
declare is_ancestor.simps [simp del]

lemma length_acc_step [simp]: "length (acc_step par xs c) = length xs"
  by (simp add: acc_step_def)

lemma acc_step_nth:
  "b < length xs \<Longrightarrow> par ! c < length xs \<Longrightarrow>
   acc_step par xs c ! b = (if par ! c \<noteq> 0 \<and> b = par ! c then xs ! b + xs ! c else xs ! b)"
  by (simp add: acc_step_def)

lemma length_foldl_acc_step [simp]: "length (foldl (acc_step par) xs bs) = length xs"
  by (induction bs arbitrary: xs) auto

lemma crb_accumulate_body_eq:
  assumes "c < length (body_parentid m)" and "c < length (crb d)"
    and "body_parentid m ! c < length (crb d)"
  shows "crb_accumulate_body m d c = Some (d\<lparr>crb := acc_step (body_parentid m) (crb d) c\<rparr>)"
  using assms by (simp add: crb_accumulate_body_def acc_step_def wr_def)

lemma foldl_acc_step:
  fixes xs :: "'a::comm_monoid_add list"
  assumes "distinct bs"
    and "\<forall>c \<in> set bs. c < length xs \<and> par ! c < length xs \<and> (par ! c \<noteq> 0 \<longrightarrow> par ! c \<notin> set bs)"
    and "b < length xs"
  shows "foldl (acc_step par) xs bs ! b =
           xs ! b + (if b \<noteq> 0 then sum (\<lambda>c. xs ! c) {c \<in> set bs. par ! c = b} else 0)"
  using assms
proof (induction bs arbitrary: b rule: rev_induct)
  case Nil
  then show ?case by simp
next
  case (snoc c bs)
  let ?G = "foldl (acc_step par) xs bs"
  have d: "distinct bs" and cnew: "c \<notin> set bs" using snoc.prems(1) by auto
  have h: "\<forall>c \<in> set bs. c < length xs \<and> par ! c < length xs \<and> (par ! c \<noteq> 0 \<longrightarrow> par ! c \<notin> set bs)"
    using snoc.prems(2) by auto
  have IH: "\<And>b. b < length xs \<Longrightarrow> ?G ! b =
           xs ! b + (if b \<noteq> 0 then sum (\<lambda>c. xs ! c) {c \<in> set bs. par ! c = b} else 0)"
    using snoc.IH [OF d h] by blast
  have c: "c < length xs" "par ! c < length xs" using snoc.prems(2) by auto
  show ?case
  proof (cases "par ! c = 0")
    case True
    then have "{c' \<in> set (bs @ [c]). par ! c' = b} = {c' \<in> set bs. par ! c' = b}" if "b \<noteq> 0"
      using that by auto
    with True IH [OF snoc.prems(3)] snoc.prems(3) c show ?thesis
      by (auto simp: acc_step_nth)
  next
    case False
    have nopar: "\<And>c'. c' \<in> set bs \<Longrightarrow> par ! c' \<noteq> c \<or> par ! c' = 0"
      using snoc.prems(2) by auto
    have Gc: "?G ! c = xs ! c"
    proof (cases "c = 0")
      case True
      with IH [OF c(1)] show ?thesis by simp
    next
      case c0: False
      with nopar have e: "{c' \<in> set bs. par ! c' = c} = {}" by auto
      show ?thesis using IH [OF c(1)] c0 by (simp add: e)
    qed
    show ?thesis
    proof (cases "b = par ! c")
      case True
      have fin: "finite {c' \<in> set bs. par ! c' = b}" by simp
      have "{c' \<in> set (bs @ [c]). par ! c' = b} = insert c {c' \<in> set bs. par ! c' = b}"
        using True by auto
      moreover have "c \<notin> {c' \<in> set bs. par ! c' = b}" using cnew by simp
      ultimately have "sum (\<lambda>c. xs ! c) {c' \<in> set (bs @ [c]). par ! c' = b}
          = xs ! c + sum (\<lambda>c. xs ! c) {c' \<in> set bs. par ! c' = b}"
        using fin by simp
      with True False Gc IH [OF snoc.prems(3)] c snoc.prems(3) show ?thesis
        by (simp add: acc_step_nth ac_simps)
    next
      case bp: False
      then have "{c' \<in> set (bs @ [c]). par ! c' = b} = {c' \<in> set bs. par ! c' = b}"
        by auto
      with bp False IH [OF snoc.prems(3)] c snoc.prems(3) show ?thesis
        by (simp add: acc_step_nth)
    qed
  qed
qed

lemma depth_0 [simp]: "depth par 0 = 0"
  by (simp add: depth.simps)

lemma wf_tree_parent:
  assumes "wf_tree m" and "0 < b" and "b < nbody m"
  shows "body_parentid m ! b < b"
  using assms by (simp add: wf_tree_def)

lemma wf_tree_depth:
  assumes "wf_tree m" and "0 < b" and "b < nbody m"
  shows "depth (body_parentid m) b = Suc (depth (body_parentid m) (body_parentid m ! b))"
  using wf_tree_parent [OF assms] assms(2) by (subst depth.simps) simp

lemma wf_tree_child:
  assumes wf: "wf_tree m" and c: "c < nbody m" and p: "body_parentid m ! c = p" and p0: "p \<noteq> 0"
  shows "0 < c \<and> p < c \<and> depth (body_parentid m) c = Suc (depth (body_parentid m) p)"
proof -
  from wf have "body_parentid m ! 0 = 0" by (simp add: wf_tree_def)
  with p p0 have c0: "0 < c" by (cases "c = 0") auto
  from wf_tree_parent [OF wf c0 c] wf_tree_depth [OF wf c0 c] p c0 show ?thesis by simp
qed

lemma subtree_sum_children:
  fixes xs :: "'a::comm_monoid_add list"
  assumes wf: "wf_tree m" and p0: "p \<noteq> 0"
  shows "subtree_sum (body_parentid m) xs p =
           xs ! p + sum (subtree_sum (body_parentid m) xs) {c. c < nbody m \<and> body_parentid m ! c = p}"
proof -
  let ?par = "body_parentid m"
  have n: "length ?par = nbody m" using wf by (simp add: wf_tree_def)
  have "set (filter (\<lambda>c. p < c \<and> ?par ! c = p) [0..<length ?par]) = {c. c < nbody m \<and> ?par ! c = p}"
    using wf_tree_child [OF wf _ _ p0] by (auto simp: n)
  moreover have "distinct (filter (\<lambda>c. p < c \<and> ?par ! c = p) [0..<length ?par])"
    by simp
  ultimately have "sum_list (map (subtree_sum ?par xs) (filter (\<lambda>c. p < c \<and> ?par ! c = p) [0..<length ?par]))
      = sum (subtree_sum ?par xs) {c. c < nbody m \<and> ?par ! c = p}"
    by (simp add: sum_list_distinct_conv_sum_set)
  then show ?thesis
    by (subst subtree_sum.simps) simp
qed

lemma launch_seq_cong:
  assumes "\<And>t s. t \<in> set ts \<Longrightarrow> k s t = k' s t"
  shows "launch_seq k ts s = launch_seq k' ts s"
  using assms by (induction ts arbitrary: s) (auto split: option.splits)

lemma launch_seq_map: "launch_seq (\<lambda>s t. g s (f t)) ts s = launch_seq g (map f ts) s"
  by (induction ts arbitrary: s) (auto split: option.splits)

lemma crb_accumulate_level:
  assumes "adr + sz \<le> length (body_tree m)"
  shows "launch (crb_accumulate m adr) sz d =
           launch_seq (crb_accumulate_body m) (map (\<lambda>k. body_tree m ! (adr + k)) [0..<sz]) d"
proof -
  have "launch_seq (crb_accumulate m adr) [0..<sz] d
      = launch_seq (\<lambda>s t. crb_accumulate_body m s (body_tree m ! (adr + t))) [0..<sz] d"
    using assms by (intro launch_seq_cong) (simp add: crb_accumulate_def)
  also have "\<dots> = launch_seq (crb_accumulate_body m) (map (\<lambda>k. body_tree m ! (adr + k)) [0..<sz]) d"
    by (rule launch_seq_map)
  finally show ?thesis
    by (simp add: launch_def)
qed

lemma crb_accumulate_body_seq:
  assumes "\<forall>c \<in> set bs. c < length (body_parentid m) \<and> c < length (crb d) \<and>
             body_parentid m ! c < length (crb d)"
  shows "launch_seq (crb_accumulate_body m) bs d =
           Some (d\<lparr>crb := foldl (acc_step (body_parentid m)) (crb d) bs\<rparr>)"
  using assms
proof (induction bs arbitrary: d)
  case Nil
  then show ?case by simp
next
  case (Cons c bs)
  let ?d1 = "d\<lparr>crb := acc_step (body_parentid m) (crb d) c\<rparr>"
  from Cons.prems have "crb_accumulate_body m d c = Some ?d1"
    by (intro crb_accumulate_body_eq) auto
  moreover from Cons.prems have "launch_seq (crb_accumulate_body m) bs ?d1 =
           Some (?d1\<lparr>crb := foldl (acc_step (body_parentid m)) (crb ?d1) bs\<rparr>)"
    by (intro Cons.IH) auto
  ultimately show ?case by simp
qed

lemma launch_levels_append:
  "launch_levels k (xs @ ys) s =
     (case launch_levels k xs s of None \<Rightarrow> None | Some s' \<Rightarrow> launch_levels k ys s')"
  by (induction xs arbitrary: s) (auto split: option.splits bind_splits)

lemma crb_levels_inv:
  assumes wf: "wf_tree m" and len: "length cin = nbody m" and crb0: "crb d = cin"
    and l: "l \<le> length (body_leveladr m)"
  shows "\<exists>xs. launch_levels (crb_accumulate m)
                (rev (drop l (zip (body_leveladr m) (body_levelsize m)))) d = Some (d\<lparr>crb := xs\<rparr>) \<and>
           length xs = nbody m \<and>
           (\<forall>b < nbody m. xs ! b =
              (if b \<noteq> 0 \<and> l \<le> depth (body_parentid m) b + 1
               then subtree_sum (body_parentid m) cin b else cin ! b))"
  using l
proof (induction l rule: inc_induct)
  case base
  let ?par = "body_parentid m"
  let ?K = "length (body_leveladr m)"
  have deep: "\<And>b. b < nbody m \<Longrightarrow> depth ?par b < ?K"
    using wf by (auto simp: wf_tree_def)
  have ss: "subtree_sum ?par cin b = cin ! b" if b: "b < nbody m" "b \<noteq> 0" "?K \<le> depth ?par b + 1" for b
  proof -
    have "{c. c < nbody m \<and> ?par ! c = b} = {}"
    proof (rule ccontr)
      assume "{c. c < nbody m \<and> ?par ! c = b} \<noteq> {}"
      then obtain c where c: "c < nbody m" "?par ! c = b" by auto
      from wf_tree_child [OF wf c b(2)] deep [OF c(1)] b(3) show False by simp
    qed
    with subtree_sum_children [OF wf b(2), of cin] show ?thesis by simp
  qed
  have "d\<lparr>crb := cin\<rparr> = d" using crb0 by simp
  moreover have "length (zip (body_leveladr m) (body_levelsize m)) = ?K"
    using wf by (simp add: wf_tree_def)
  ultimately have "launch_levels (crb_accumulate m)
      (rev (drop ?K (zip (body_leveladr m) (body_levelsize m)))) d = Some (d\<lparr>crb := cin\<rparr>)"
    by simp
  with len ss show ?case
    by (intro exI [of _ cin]) auto
next
  case (step l)
  let ?par = "body_parentid m"
  let ?zs = "zip (body_leveladr m) (body_levelsize m)"
  let ?bs = "level_nodes m l"
  have n: "length ?par = nbody m" and n0: "0 < nbody m" and par0: "?par ! 0 = 0"
    using wf by (simp_all add: wf_tree_def)
  have lz: "l < length ?zs" using step.hyps wf by (simp add: wf_tree_def)
  have lvl: "body_leveladr m ! l + body_levelsize m ! l \<le> length (body_tree m)"
    "distinct ?bs" "set ?bs = {b. b < nbody m \<and> depth ?par b = l}"
    using wf step.hyps unfolding wf_tree_def by blast+
  from step.IH obtain xs1 where
    run1: "launch_levels (crb_accumulate m) (rev (drop (Suc l) ?zs)) d = Some (d\<lparr>crb := xs1\<rparr>)"
    and len1: "length xs1 = nbody m"
    and inv1: "\<And>b. b < nbody m \<Longrightarrow> xs1 ! b =
              (if b \<noteq> 0 \<and> Suc l \<le> depth ?par b + 1 then subtree_sum ?par cin b else cin ! b)"
    by blast
  let ?d1 = "d\<lparr>crb := xs1\<rparr>"
  let ?G = "foldl (acc_step ?par) xs1 ?bs"
  have parlt: "?par ! c < nbody m" if "c < nbody m" for c
    using that wf_tree_parent [OF wf, of c] par0 n0 by (cases "c = 0") auto
  have rng: "\<forall>c \<in> set ?bs. c < length xs1 \<and> ?par ! c < length xs1 \<and>
               (?par ! c \<noteq> 0 \<longrightarrow> ?par ! c \<notin> set ?bs)"
  proof (intro ballI conjI impI)
    fix c assume c: "c \<in> set ?bs"
    then have cn: "c < nbody m" and dc: "depth ?par c = l" by (simp_all add: lvl(3))
    show "c < length xs1" using cn len1 by simp
    show "?par ! c < length xs1" using parlt [OF cn] len1 by simp
    assume "?par ! c \<noteq> 0"
    from wf_tree_child [OF wf cn refl this] dc have "depth ?par (?par ! c) \<noteq> l"
      by simp
    then show "?par ! c \<notin> set ?bs"
      unfolding lvl(3) by simp
  qed
  have "launch (crb_accumulate m (body_leveladr m ! l)) (body_levelsize m ! l) ?d1
      = launch_seq (crb_accumulate_body m) ?bs ?d1"
    using crb_accumulate_level [OF lvl(1)] by (simp add: level_nodes_def)
  also have "\<dots> = Some (?d1\<lparr>crb := foldl (acc_step ?par) (crb ?d1) ?bs\<rparr>)"
    using rng n len1 lvl(3) by (intro crb_accumulate_body_seq) auto
  finally have lev: "launch (crb_accumulate m (body_leveladr m ! l)) (body_levelsize m ! l) ?d1
      = Some (d\<lparr>crb := ?G\<rparr>)"
    by simp
  have "drop l ?zs = (body_leveladr m ! l, body_levelsize m ! l) # drop (Suc l) ?zs"
    using lz by (simp add: Cons_nth_drop_Suc [symmetric])
  then have run: "launch_levels (crb_accumulate m) (rev (drop l ?zs)) d = Some (d\<lparr>crb := ?G\<rparr>)"
    using run1 lev by (simp add: launch_levels_append)
  have G: "?G ! b = (if b \<noteq> 0 \<and> l \<le> depth ?par b + 1 then subtree_sum ?par cin b else cin ! b)"
    if b: "b < nbody m" for b
  proof -
    have b1: "b < length xs1" using b len1 by simp
    note f = foldl_acc_step [OF lvl(2) rng b1]
    show ?thesis
    proof (cases "b = 0")
      case True
      with f inv1 [OF b] show ?thesis by simp
    next
      case b0: False
      show ?thesis
      proof (cases "depth ?par b + 1 = l")
        case True
        have S: "{c \<in> set ?bs. ?par ! c = b} = {c. c < nbody m \<and> ?par ! c = b}"
          using wf_tree_child [OF wf _ _ b0] True by (auto simp: lvl(3))
        have "sum (\<lambda>c. xs1 ! c) {c. c < nbody m \<and> ?par ! c = b}
            = sum (subtree_sum ?par cin) {c. c < nbody m \<and> ?par ! c = b}"
        proof (rule sum.cong [OF refl])
          fix c assume "c \<in> {c. c < nbody m \<and> ?par ! c = b}"
          then have c: "c < nbody m" "?par ! c = b" by auto
          from wf_tree_child [OF wf c b0] True inv1 [OF c(1)]
          show "xs1 ! c = subtree_sum ?par cin c" by simp
        qed
        moreover have "xs1 ! b = cin ! b" using inv1 [OF b] True by simp
        ultimately show ?thesis
          using f b0 True S subtree_sum_children [OF wf b0, of cin] by simp
      next
        case False
        have "{c \<in> set ?bs. ?par ! c = b} = {}"
          using wf_tree_child [OF wf _ _ b0] False by (auto simp: lvl(3))
        with f b0 inv1 [OF b] False show ?thesis by auto
      qed
    qed
  qed
  from run G len1 show ?case by auto
qed

lemma is_ancestor_refl [simp]: "is_ancestor par b b"
  by (simp add: is_ancestor.simps)

lemma is_ancestor_le: "is_ancestor par b c \<Longrightarrow> b \<le> c"
proof (induction c rule: less_induct)
  case (less c)
  show ?case
  proof (cases "c = b")
    case True
    then show ?thesis by simp
  next
    case False
    with less.prems have "par ! c < c" "is_ancestor par b (par ! c)"
      by (auto simp: is_ancestor.simps [of par b c] split: if_splits)
    with less.IH [of "par ! c"] show ?thesis by simp
  qed
qed

lemma is_ancestor_step:
  assumes "c \<noteq> b"
  shows "is_ancestor par b c \<longleftrightarrow> c \<noteq> 0 \<and> par ! c < c \<and> is_ancestor par b (par ! c)"
  using assms by (subst is_ancestor.simps) auto

lemma subtree_child_sub:
  assumes wf: "wf_tree m" and b0: "b \<noteq> 0" and c: "c \<in> children m b" and e: "e \<in> subtree m c"
  shows "e \<in> subtree m b \<and> e \<noteq> b"
proof -
  let ?par = "body_parentid m"
  from c have cn: "c < nbody m" and pc: "?par ! c = b" by (simp_all add: children_def)
  note ch = wf_tree_child [OF wf cn pc b0]
  from e have en: "e < nbody m" and anc: "is_ancestor ?par c e" by (simp_all add: subtree_def)
  from anc have "is_ancestor ?par b e"
  proof (induction e rule: less_induct)
    case (less e)
    show ?case
    proof (cases "e = c")
      case True
      with ch pc show ?thesis by (simp add: is_ancestor_step [of c b])
    next
      case False
      with less.prems have st: "e \<noteq> 0" "?par ! e < e" "is_ancestor ?par c (?par ! e)"
        by (simp_all add: is_ancestor_step)
      from less.IH [OF st(2) st(3)] st is_ancestor_le [OF less.prems] ch show ?thesis
        by (simp add: is_ancestor_step [of e b])
    qed
  qed
  moreover from is_ancestor_le [OF anc] ch have "e \<noteq> b" by simp
  ultimately show ?thesis using en by (simp add: subtree_def)
qed

lemma subtree_child_ex:
  assumes wf: "wf_tree m" and b0: "b \<noteq> 0" and e: "e \<in> subtree m b" and eb: "e \<noteq> b"
  shows "\<exists>c \<in> children m b. e \<in> subtree m c"
proof -
  let ?par = "body_parentid m"
  from e have "e < nbody m" "is_ancestor ?par b e" by (simp_all add: subtree_def)
  then show ?thesis using eb
  proof (induction e rule: less_induct)
    case (less e)
    from less.prems have st: "e \<noteq> 0" "?par ! e < e" "is_ancestor ?par b (?par ! e)"
      by (simp_all add: is_ancestor_step)
    show ?case
    proof (cases "?par ! e = b")
      case True
      with less.prems(1) have "e \<in> children m b" "e \<in> subtree m e"
        by (simp_all add: children_def subtree_def)
      then show ?thesis by blast
    next
      case False
      from st(2) less.prems(1) have "?par ! e < nbody m" by simp
      from less.IH [OF st(2) this st(3) False] obtain c where
        c: "c \<in> children m b" and pe: "?par ! e \<in> subtree m c" by blast
      from pe have anc: "is_ancestor ?par c (?par ! e)" by (simp add: subtree_def)
      have "is_ancestor ?par c e"
      proof (cases "e = c")
        case True then show ?thesis by simp
      next
        case False with st anc show ?thesis by (simp add: is_ancestor_step)
      qed
      with c less.prems(1) show ?thesis by (auto simp: subtree_def)
    qed
  qed
qed

lemma subtree_children_disjoint:
  assumes wf: "wf_tree m" and b0: "b \<noteq> 0"
    and c: "c \<in> children m b" and c': "c' \<in> children m b" and ne: "c \<noteq> c'"
  shows "subtree m c \<inter> subtree m c' = {}"
proof -
  let ?par = "body_parentid m"
  from c c' have cn: "c < nbody m" "?par ! c = b" "c' < nbody m" "?par ! c' = b"
    by (simp_all add: children_def)
  note ch = wf_tree_child [OF wf cn(1,2) b0] wf_tree_child [OF wf cn(3,4) b0]
  have "\<not> (is_ancestor ?par c e \<and> is_ancestor ?par c' e)" for e
  proof (induction e rule: less_induct)
    case (less e)
    show ?case
    proof
      assume a: "is_ancestor ?par c e \<and> is_ancestor ?par c' e"
      show False
      proof (cases "e = c \<or> e = c'")
        case True
        then show False
        proof
          assume ec: "e = c"
          with a ne cn have "is_ancestor ?par c' b" by (simp add: is_ancestor_step)
          from is_ancestor_le [OF this] ch show False by simp
        next
          assume ec: "e = c'"
          with a ne cn have "is_ancestor ?par c b" by (simp add: is_ancestor_step)
          from is_ancestor_le [OF this] ch show False by simp
        qed
      next
        case False
        with a have "?par ! e < e" "is_ancestor ?par c (?par ! e)" "is_ancestor ?par c' (?par ! e)"
          by (simp_all add: is_ancestor_step)
        with less.IH [of "?par ! e"] show False by simp
      qed
    qed
  qed
  then show ?thesis by (auto simp: subtree_def)
qed

lemma subtree_decomp:
  assumes wf: "wf_tree m" and b0: "b \<noteq> 0" and bn: "b < nbody m"
  shows "subtree m b = insert b (\<Union>c \<in> children m b. subtree m c)"
proof -
  have "b \<in> subtree m b" using bn by (simp add: subtree_def)
  with subtree_child_sub [OF wf b0] subtree_child_ex [OF wf b0] show ?thesis
    by blast
qed

lemma subtree_sum_set:
  fixes xs :: "'a::comm_monoid_add list"
  assumes wf: "wf_tree m" and b0: "b \<noteq> 0" and bn: "b < nbody m"
  shows "subtree_sum (body_parentid m) xs b = sum (\<lambda>c. xs ! c) (subtree m b)"
  using b0 bn
proof (induction "nbody m - b" arbitrary: b rule: less_induct)
  case less
  let ?par = "body_parentid m"
  have fin: "finite (children m b)" "\<And>c. finite (subtree m c)"
    by (simp_all add: children_def subtree_def)
  have IH: "subtree_sum ?par xs c = sum (\<lambda>c. xs ! c) (subtree m c)" if "c \<in> children m b" for c
  proof -
    from that have c: "c < nbody m" "?par ! c = b" by (simp_all add: children_def)
    from wf_tree_child [OF wf c less.prems(1)] c(1) less.prems(2) show ?thesis
      by (intro less.hyps) auto
  qed
  have notin: "b \<notin> (\<Union>c \<in> children m b. subtree m c)"
    using subtree_child_sub [OF wf less.prems(1)] by blast
  have "sum (\<lambda>c. xs ! c) (subtree m b)
      = xs ! b + sum (\<lambda>c. xs ! c) (\<Union>c \<in> children m b. subtree m c)"
    using subtree_decomp [OF wf less.prems] notin fin by simp
  also have "sum (\<lambda>c. xs ! c) (\<Union>c \<in> children m b. subtree m c)
      = sum (\<lambda>c. sum (\<lambda>e. xs ! e) (subtree m c)) (children m b)"
    using fin subtree_children_disjoint [OF wf less.prems(1)]
    by (intro sum.UNION_disjoint) auto
  also have "\<dots> = sum (subtree_sum ?par xs) (children m b)"
    using IH by (intro sum.cong) auto
  finally show ?case
    using subtree_sum_children [OF wf less.prems(1), of xs] by (simp add: children_def)
qed

lemma qM_sparse_crb: "qM_sparse m d t = Some d' \<Longrightarrow> crb d' = crb d"
  by (auto simp: qM_sparse_def Let_def split: bind_splits)

text \<open>
  C10. On a well-formed body tree, after \<^verbatim>\<open>crb\<close> entry \<open>0\<close> of \<^verbatim>\<open>d.crb\<close> is the
  \<^verbatim>\<open>cinert\<close> of body \<open>0\<close> alone (nothing is ever added to it), and the entry of
  every other body is the sum of \<^verbatim>\<open>cinert\<close> over the subtree of that body.
\<close>

theorem crb_subtree:
  assumes wf: "wf_tree m"
    and len: "length (cinert d) = nbody m" "length (crb d) = nbody m"
    and run: "crb_fn m d = Some d'"
  shows "crb d' ! 0 = cinert d ! 0 \<and>
         (\<forall>b. 0 < b \<and> b < nbody m \<longrightarrow> crb d' ! b = sum (\<lambda>c. cinert d ! c) (subtree m b))"
proof -
  let ?d0 = "d\<lparr>crb := cinert d\<rparr>"
  let ?zs = "zip (body_leveladr m) (body_levelsize m)"
  have copy: "wp_copy (crb d) (cinert d) = Some (cinert d)"
    using len by (simp add: wp_copy_def)
  have lv: "levels_backwards (body_leveladr m) (body_levelsize m) = Some (rev ?zs)"
    using wf by (simp add: levels_backwards_def wf_tree_def)
  from crb_levels_inv [OF wf len(1), of ?d0 0] obtain xs where
    acc: "launch_levels (crb_accumulate m) (rev ?zs) ?d0 = Some (?d0\<lparr>crb := xs\<rparr>)"
    and xs: "\<And>b. b < nbody m \<Longrightarrow> xs ! b =
       (if b \<noteq> 0 then subtree_sum (body_parentid m) (cinert d) b else cinert d ! b)"
    by auto
  let ?d1 = "?d0\<lparr>crb := xs\<rparr>"
  from run copy lv acc
  have "launch (qM_sparse m) (nv m) (?d1\<lparr>qM := map (map (\<lambda>x. 0)) (qM ?d1)\<rparr>) = Some d'"
    by (simp add: crb_fn_def Let_def)
  then have "crb d' = xs"
    by (rule launch_preserves [where P = "\<lambda>s. crb s = xs"]) (auto dest: qM_sparse_crb)
  moreover have "0 < nbody m" using wf by (simp add: wf_tree_def)
  ultimately show ?thesis using xs subtree_sum_set [OF wf, of _ "cinert d"] by auto
qed

lemma lt4: "(b::nat) < 4 \<longleftrightarrow> b = 0 \<or> b = 1 \<or> b = 2 \<or> b = 3"
  by arith

lemma depth_m_tree:
  "depth [0, 0, Suc 0, Suc 0] (Suc 0) = Suc 0" "depth [0, 0, Suc 0, Suc 0] 2 = 2"
  "depth [0, 0, Suc 0, Suc 0] 3 = 2"
  by (simp_all add: depth.simps)

lemma wf_m_tree: "wf_tree m_tree"
  unfolding wf_tree_def
proof (intro conjI allI impI)
  fix l assume "l < length (body_leveladr m_tree)"
  then have "l < 3"
    by (simp add: m_tree_def Model0_def)
  then have l: "l = 0 \<or> l = 1 \<or> l = 2"
    by arith
  have n: "level_nodes m_tree 0 = [0]" "level_nodes m_tree 1 = [1]" "level_nodes m_tree 2 = [2, 3]"
    by (simp_all add: level_nodes_def m_tree_def Model0_def upt_rec)
  from l show "body_leveladr m_tree ! l + body_levelsize m_tree ! l \<le> length (body_tree m_tree)"
    by (auto simp: m_tree_def Model0_def)
  from l n show "distinct (level_nodes m_tree l)"
    by auto
  have p: "body_parentid m_tree = [0, 0, 1, 1]" "nbody m_tree = 4"
    by (simp_all add: m_tree_def Model0_def)
  from l n show "set (level_nodes m_tree l) =
      {b. b < nbody m_tree \<and> depth (body_parentid m_tree) b = l}"
    by (auto simp: p lt4 depth_m_tree)
qed (auto simp: m_tree_def Model0_def lt4 depth_m_tree)

lemma crb_m_tree:
  "map_option crb (crb_fn m_tree d_tree) =
     Some [mass_only 1, mass_only 14, mass_only 4, mass_only 8]"
  by (simp add: crb_fn_def levels_backwards_def wp_copy_def launch_def crb_accumulate_def
      crb_accumulate_body_def qM_sparse_def qM_ancestors.simps rd2_def wr2_def rdi_def wr_def
      m_tree_def d_tree_def Model0_def Data0_def mass_only_def upt_rec Let_def)

theorem crb_subtree_witness:
  "wf_tree m_tree \<and> length (cinert d_tree) = nbody m_tree \<and>
   length (crb d_tree) = nbody m_tree \<and>
   (\<exists>d'. crb_fn m_tree d_tree = Some d' \<and>
      crb d' = [mass_only 1, mass_only 14, mass_only 4, mass_only 8] \<and>
      crb d' ! 0 = cinert d_tree ! 0 \<and>
      crb d' ! 1 = sum (\<lambda>c. cinert d_tree ! c) (subtree m_tree 1))"
proof -
  have len: "length (cinert d_tree) = nbody m_tree" "length (crb d_tree) = nbody m_tree"
    by (simp_all add: m_tree_def d_tree_def Model0_def Data0_def)
  from crb_m_tree obtain d' where d': "crb_fn m_tree d_tree = Some d'"
    and c: "crb d' = [mass_only 1, mass_only 14, mass_only 4, mass_only 8]"
    by (auto simp: map_option_eq_Some)
  have one: "(0::nat) < 1 \<and> 1 < nbody m_tree"
    by (simp add: m_tree_def)
  from crb_subtree [OF wf_m_tree len d'] one
  have "crb d' ! 0 = cinert d_tree ! 0"
    and "crb d' ! 1 = sum (\<lambda>c. cinert d_tree ! c) (subtree m_tree 1)"
    by blast+
  with wf_m_tree len d' c show ?thesis
    by blast
qed

section \<open>Solving with the factor\<close>

lemma dof_ancestors_root: "\<not> 0 \<le> par ! i \<Longrightarrow> dof_ancestors par i = []"
  by (simp add: dof_ancestors.simps)

lemma dof_ancestors_step:
  "0 \<le> par ! i \<Longrightarrow> par ! i < int i \<Longrightarrow>
   dof_ancestors par i = nat (par ! i) # dof_ancestors par (nat (par ! i))"
  by (subst dof_ancestors.simps) simp

lemma dof_ancestors_less: "a \<in> set (dof_ancestors par i) \<Longrightarrow> a < i"
proof (induction i arbitrary: a rule: less_induct)
  case (less i)
  show ?case
  proof (cases "0 \<le> par ! i \<and> par ! i < int i")
    case True
    then have "dof_ancestors par i = nat (par ! i) # dof_ancestors par (nat (par ! i))"
      by (simp add: dof_ancestors_step)
    with less.prems have "a = nat (par ! i) \<or> a \<in> set (dof_ancestors par (nat (par ! i)))"
      by simp
    moreover from True have pl: "nat (par ! i) < i" by linarith
    ultimately show ?thesis
      using less.IH [OF pl, of a] by auto
  next
    case False
    then have "dof_ancestors par i = []" by (subst dof_ancestors.simps) simp
    with less.prems show ?thesis by simp
  qed
qed

lemma solve_LT_walk_correct:
  assumes par: "length (dof_parentid m) = n" "\<forall>i < n. - 1 \<le> dof_parentid m ! i \<and> dof_parentid m ! i < int i"
    and q: "rd qLD 0 = Some q"
    and y: "length y = n" and i: "i < n"
  shows "i' \<le> i \<Longrightarrow> madr + length (dof_ancestors (dof_parentid m) i') \<le> length q \<Longrightarrow>
     \<exists>y'. solve_LT_walk m qLD i (dof_parentid m ! i') madr y = Some y' \<and> length y' = n \<and>
       (\<forall>k < n. y' ! k = y ! k -
          (\<Sum>t < length (dof_ancestors (dof_parentid m) i').
             if dof_ancestors (dof_parentid m) i' ! t = k then q ! (madr + t) * y ! i else 0))"
  using y
proof (induction i' arbitrary: madr y rule: less_induct)
  case (less i')
  let ?par = "dof_parentid m"
  let ?p = "?par ! i'"
  from less.prems(1) i have i'n: "i' < n" by simp
  show ?case
  proof (cases "0 \<le> ?p")
    case False
    then show ?thesis
      using less.prems by (subst solve_LT_walk.simps) (simp add: dof_ancestors_root)
  next
    case True
    with par(2) i'n have plt: "?p < int i'" by simp
    let ?a = "nat ?p"
    have a: "?a < i'" "?a < n" "?a \<noteq> i" using True plt i'n less.prems(1) by auto
    have anc: "dof_ancestors ?par i' = ?a # dof_ancestors ?par ?a"
      using True plt by (rule dof_ancestors_step)
    let ?y1 = "y[?a := y ! ?a - q ! madr * y ! i]"
    from less.prems(2) anc have rng: "madr < length q"
      "Suc madr + length (dof_ancestors ?par ?a) \<le> length q" by simp_all
    from less.IH [OF a(1) _ rng(2), of ?y1] a less.prems(1,3)
    obtain y' where y': "solve_LT_walk m qLD i (?par ! ?a) (Suc madr) ?y1 = Some y'"
      and len: "length y' = n"
      and val: "\<And>k. k < n \<Longrightarrow> y' ! k = ?y1 ! k -
          (\<Sum>t < length (dof_ancestors ?par ?a).
             if dof_ancestors ?par ?a ! t = k then q ! (Suc madr + t) * ?y1 ! i else 0)"
      by auto
    have run: "solve_LT_walk m qLD i ?p madr y = Some y'"
      using True a rng(1) q y' less.prems(3) i par(1)
      by (subst solve_LT_walk.simps) (simp add: rdi_def wri_def rd2_def wr_def)
    have y1i: "?y1 ! i = y ! i" using a by simp
    have s: "(\<Sum>t < length (dof_ancestors ?par i').
             if dof_ancestors ?par i' ! t = k then q ! (madr + t) * y ! i else 0)
        = (if ?a = k then q ! madr * y ! i else 0) +
          (\<Sum>t < length (dof_ancestors ?par ?a).
             if dof_ancestors ?par ?a ! t = k then q ! (Suc madr + t) * y ! i else 0)" for k
      unfolding anc by (simp add: sum.lessThan_Suc_shift del: sum.lessThan_Suc cong: if_cong)
    have "y' ! k = y ! k -
          (\<Sum>t < length (dof_ancestors ?par i').
             if dof_ancestors ?par i' ! t = k then q ! (madr + t) * y ! i else 0)" if k: "k < n" for k
      using val [OF k, unfolded y1i] a k less.prems(3)
      by (simp add: s nth_list_update)
    with run len show ?thesis by blast
  qed
qed

lemma solve_L_walk_correct:
  assumes par: "length (dof_parentid m) = n" "\<forall>i < n. - 1 \<le> dof_parentid m ! i \<and> dof_parentid m ! i < int i"
    and q: "rd qLD 0 = Some q"
    and y: "length y = n" and i: "i < n"
  shows "i' \<le> i \<Longrightarrow> madr + length (dof_ancestors (dof_parentid m) i') \<le> length q \<Longrightarrow>
     solve_L_walk m qLD i (dof_parentid m ! i') madr y =
       Some (y[i := y ! i -
          (\<Sum>t < length (dof_ancestors (dof_parentid m) i').
             q ! (madr + t) * y ! (dof_ancestors (dof_parentid m) i' ! t))])"
  using y
proof (induction i' arbitrary: madr y rule: less_induct)
  case (less i')
  let ?par = "dof_parentid m"
  let ?p = "?par ! i'"
  from less.prems(1) i have i'n: "i' < n" by simp
  show ?case
  proof (cases "0 \<le> ?p")
    case False
    then show ?thesis
      using less.prems by (subst solve_L_walk.simps) (simp add: dof_ancestors_root)
  next
    case True
    with par(2) i'n have plt: "?p < int i'" by simp
    let ?a = "nat ?p"
    have a: "?a < i'" "?a < n" "?a \<noteq> i" using True plt i'n less.prems(1) by auto
    have anc: "dof_ancestors ?par i' = ?a # dof_ancestors ?par ?a"
      using True plt by (rule dof_ancestors_step)
    let ?y1 = "y[i := y ! i - q ! madr * y ! ?a]"
    from less.prems(2) anc have rng: "madr < length q"
      "Suc madr + length (dof_ancestors ?par ?a) \<le> length q" by simp_all
    have IH: "solve_L_walk m qLD i (?par ! ?a) (Suc madr) ?y1 =
       Some (?y1[i := ?y1 ! i -
          (\<Sum>t < length (dof_ancestors ?par ?a).
             q ! (Suc madr + t) * ?y1 ! (dof_ancestors ?par ?a ! t))])"
      using a less.prems(1,3) by (intro less.IH [OF a(1) _ rng(2)]) auto
    have same: "(\<Sum>t < length (dof_ancestors ?par ?a).
             q ! (Suc madr + t) * ?y1 ! (dof_ancestors ?par ?a ! t))
        = (\<Sum>t < length (dof_ancestors ?par ?a).
             q ! (Suc madr + t) * y ! (dof_ancestors ?par ?a ! t))"
    proof (rule sum.cong [OF refl])
      fix t assume "t \<in> {..<length (dof_ancestors ?par ?a)}"
      then have "dof_ancestors ?par ?a ! t \<in> set (dof_ancestors ?par ?a)" by simp
      from dof_ancestors_less [OF this] a less.prems(1)
      have "dof_ancestors ?par ?a ! t \<noteq> i" by simp
      then show "q ! (Suc madr + t) * ?y1 ! (dof_ancestors ?par ?a ! t)
          = q ! (Suc madr + t) * y ! (dof_ancestors ?par ?a ! t)" by simp
    qed
    have s: "(\<Sum>t < length (dof_ancestors ?par i').
             q ! (madr + t) * y ! (dof_ancestors ?par i' ! t))
        = q ! madr * y ! ?a +
          (\<Sum>t < length (dof_ancestors ?par ?a).
             q ! (Suc madr + t) * y ! (dof_ancestors ?par ?a ! t))"
      unfolding anc by (simp add: sum.lessThan_Suc_shift del: sum.lessThan_Suc)
    have "solve_L_walk m qLD i ?p madr y = solve_L_walk m qLD i (?par ! ?a) (Suc madr) ?y1"
      using True a rng(1) q less.prems(3) i par(1)
      by (subst solve_L_walk.simps) (simp add: rdi_def rd2_def wr_def)
    also note IH [unfolded same]
    also have "?y1[i := ?y1 ! i -
          (\<Sum>t < length (dof_ancestors ?par ?a).
             q ! (Suc madr + t) * y ! (dof_ancestors ?par ?a ! t))]
        = y[i := y ! i - (q ! madr * y ! ?a +
          (\<Sum>t < length (dof_ancestors ?par ?a).
             q ! (Suc madr + t) * y ! (dof_ancestors ?par ?a ! t)))]"
      using i less.prems(3) by (simp add: diff_diff_eq)
    finally show ?thesis
      unfolding s .
  qed
qed

lemma Loff_zero:
  assumes "i \<le> j"
  shows "Loff m q i j = 0"
proof -
  have "dof_ancestors (dof_parentid m) i ! t \<noteq> j" if "t < length (dof_ancestors (dof_parentid m) i)" for t
    using dof_ancestors_less [of "dof_ancestors (dof_parentid m) i ! t" "dof_parentid m" i] that assms
    by auto
  then show ?thesis by (simp add: Loff_def)
qed

lemma Loff_sum:
  assumes "\<And>a. a \<in> set (dof_ancestors (dof_parentid m) i) \<Longrightarrow> a < n"
  shows "(\<Sum>k < n. Loff m q i k * w k) =
     (\<Sum>t < length (dof_ancestors (dof_parentid m) i).
        q ! (dof_Madr m ! i + 1 + t) * w (dof_ancestors (dof_parentid m) i ! t))"
proof -
  let ?anc = "dof_ancestors (dof_parentid m) i"
  have "(\<Sum>k < n. Loff m q i k * w k)
      = (\<Sum>k < n. \<Sum>t < length ?anc. if ?anc ! t = k then q ! (dof_Madr m ! i + 1 + t) * w k else 0)"
    by (simp add: Loff_def sum_distrib_right if_distrib [of "\<lambda>x. x * _"] cong: if_cong)
  also have "\<dots> = (\<Sum>t < length ?anc. \<Sum>k < n. if ?anc ! t = k then q ! (dof_Madr m ! i + 1 + t) * w k else 0)"
    by (rule sum.swap)
  also have "\<dots> = (\<Sum>t < length ?anc. q ! (dof_Madr m ! i + 1 + t) * w (?anc ! t))"
  proof (rule sum.cong [OF refl])
    fix t assume "t \<in> {..<length ?anc}"
    then have "?anc ! t < n" using assms by simp
    then show "(\<Sum>k < n. if ?anc ! t = k then q ! (dof_Madr m ! i + 1 + t) * w k else 0)
        = q ! (dof_Madr m ! i + 1 + t) * w (?anc ! t)"
      by simp
  qed
  finally show ?thesis .
qed

lemma solve_LT_row_correct:
  assumes wf: "wf_dofs m q" and q: "rd qLD 0 = Some q" and y: "length y = nv m" and i: "i < nv m"
  shows "\<exists>y'. solve_LT_row m qLD y i = Some y' \<and> length y' = nv m \<and>
           (\<forall>k < nv m. y' ! k = y ! k - Loff m q i k * y ! i)"
proof -
  let ?par = "dof_parentid m"
  have par: "length ?par = nv m" "\<forall>i < nv m. - 1 \<le> ?par ! i \<and> ?par ! i < int i"
    and madr: "length (dof_Madr m) = nv m"
    and rng: "dof_Madr m ! i + 1 + length (dof_ancestors ?par i) \<le> length q"
    using wf i by (auto simp: wf_dofs_def)
  from solve_LT_walk_correct [OF par q y i order_refl rng] obtain y' where
    run: "solve_LT_walk m qLD i (?par ! i) (dof_Madr m ! i + 1) y = Some y'"
    and len: "length y' = nv m"
    and val: "\<And>k. k < nv m \<Longrightarrow> y' ! k = y ! k -
          (\<Sum>t < length (dof_ancestors ?par i).
             if dof_ancestors ?par i ! t = k then q ! (dof_Madr m ! i + 1 + t) * y ! i else 0)"
    by blast
  have "(\<Sum>t < length (dof_ancestors ?par i).
             if dof_ancestors ?par i ! t = k then q ! (dof_Madr m ! i + 1 + t) * y ! i else 0)
      = Loff m q i k * y ! i" for k
    by (simp add: Loff_def sum_distrib_right if_distrib [of "\<lambda>x. x * _"] cong: if_cong)
  with val have "\<forall>k < nv m. y' ! k = y ! k - Loff m q i k * y ! i" by simp
  moreover have "solve_LT_row m qLD y i = Some y'"
    using run i par madr by (simp add: solve_LT_row_def)
  ultimately show ?thesis using len by blast
qed

lemma solve_L_row_correct:
  assumes wf: "wf_dofs m q" and q: "rd qLD 0 = Some q" and y: "length y = nv m" and i: "i < nv m"
  shows "solve_L_row m qLD y i = Some (y[i := y ! i - (\<Sum>k < nv m. Loff m q i k * y ! k)])"
proof -
  let ?par = "dof_parentid m"
  have par: "length ?par = nv m" "\<forall>i < nv m. - 1 \<le> ?par ! i \<and> ?par ! i < int i"
    and madr: "length (dof_Madr m) = nv m"
    and rng: "dof_Madr m ! i + 1 + length (dof_ancestors ?par i) \<le> length q"
    using wf i by (auto simp: wf_dofs_def)
  have "a < nv m" if "a \<in> set (dof_ancestors ?par i)" for a
    using dof_ancestors_less [OF that] i by simp
  from Loff_sum [of m i "nv m" q "\<lambda>k. y ! k", OF this]
  have "(\<Sum>k < nv m. Loff m q i k * y ! k) =
     (\<Sum>t < length (dof_ancestors ?par i).
        q ! (dof_Madr m ! i + 1 + t) * y ! (dof_ancestors ?par i ! t))"
    by simp
  with solve_L_walk_correct [OF par q y i order_refl rng] i par madr show ?thesis
    by (simp add: solve_L_row_def)
qed

lemma solve_D_rows:
  assumes "length y = n" and "n \<le> length dinv"
  shows "i0 \<le> n \<Longrightarrow> launch_seq (solve_D_row dinv) [0..<i0] y =
           Some (map (\<lambda>i. if i < i0 then y ! i * dinv ! i else y ! i) [0..<n])"
proof (induction i0)
  case 0
  with assms(1) map_nth [of y] show ?case by simp
next
  case (Suc i0)
  let ?y1 = "map (\<lambda>i. if i < i0 then y ! i * dinv ! i else y ! i) [0..<n]"
  have "solve_D_row dinv ?y1 i0 = Some (?y1[i0 := y ! i0 * dinv ! i0])"
    using Suc.prems assms by (simp add: solve_D_row_def wr_def)
  moreover have "?y1[i0 := y ! i0 * dinv ! i0]
      = map (\<lambda>i. if i < Suc i0 then y ! i * dinv ! i else y ! i) [0..<n]"
    using Suc.prems by (auto simp: list_eq_iff_nth_eq nth_list_update less_Suc_eq)
  ultimately show ?case
    using Suc by (simp add: launch_seq_append)
qed

lemma solve_LT_rows:
  assumes wf: "wf_dofs m q" and q: "rd qLD 0 = Some q" and x: "length x = nv m"
  shows "i0 \<le> nv m \<Longrightarrow>
     \<exists>y. launch_seq (solve_LT_row m qLD) (rev [i0..<nv m]) x = Some y \<and> length y = nv m \<and>
       (\<forall>j < nv m. y ! j + (\<Sum>i \<in> {i0..<nv m}. Loff m q i j * y ! i) = x ! j)"
proof (induction i0 rule: inc_induct)
  case base
  with x show ?case by simp
next
  case (step i0)
  from step.IH obtain y where
    run: "launch_seq (solve_LT_row m qLD) (rev [Suc i0..<nv m]) x = Some y"
    and len: "length y = nv m"
    and inv: "\<And>j. j < nv m \<Longrightarrow> y ! j + (\<Sum>i \<in> {Suc i0..<nv m}. Loff m q i j * y ! i) = x ! j"
    by blast
  from solve_LT_row_correct [OF wf q len step.hyps(2)] obtain y' where
    row: "solve_LT_row m qLD y i0 = Some y'" and len': "length y' = nv m"
    and val: "\<And>k. k < nv m \<Longrightarrow> y' ! k = y ! k - Loff m q i0 k * y ! i0"
    by blast
  have same: "y' ! i = y ! i" if "i0 \<le> i" "i < nv m" for i
    using val [OF that(2)] Loff_zero [OF that(1), of m q] by simp
  have "y' ! j + (\<Sum>i \<in> {i0..<nv m}. Loff m q i j * y' ! i) = x ! j" if j: "j < nv m" for j
  proof -
    have "{i0..<nv m} = insert i0 {Suc i0..<nv m}" using step.hyps(2) by auto
    then have "(\<Sum>i \<in> {i0..<nv m}. Loff m q i j * y' ! i)
        = Loff m q i0 j * y' ! i0 + (\<Sum>i \<in> {Suc i0..<nv m}. Loff m q i j * y' ! i)"
      by simp
    also have "(\<Sum>i \<in> {Suc i0..<nv m}. Loff m q i j * y' ! i)
        = (\<Sum>i \<in> {Suc i0..<nv m}. Loff m q i j * y ! i)"
      by (rule sum.cong [OF refl]) (simp add: same)
    finally show ?thesis
      using val [OF j] same [OF order_refl step.hyps(2)] inv [OF j] by simp
  qed
  moreover have "rev [i0..<nv m] = rev [Suc i0..<nv m] @ [i0]"
    using step.hyps(2) by (simp add: upt_conv_Cons)
  then have "launch_seq (solve_LT_row m qLD) (rev [i0..<nv m]) x = Some y'"
    using run row by (simp add: launch_seq_append)
  ultimately show ?case using len' by blast
qed

lemma solve_L_rows:
  assumes wf: "wf_dofs m q" and q: "rd qLD 0 = Some q" and z: "length z = nv m"
  shows "i0 \<le> nv m \<Longrightarrow>
     \<exists>y. launch_seq (solve_L_row m qLD) [0..<i0] z = Some y \<and> length y = nv m \<and>
       (\<forall>i < nv m. if i < i0 then y ! i + (\<Sum>k < nv m. Loff m q i k * y ! k) = z ! i
                    else y ! i = z ! i)"
proof (induction i0)
  case 0
  with z show ?case by simp
next
  case (Suc i0)
  then have i0: "i0 < nv m" by simp
  from Suc obtain y where
    run: "launch_seq (solve_L_row m qLD) [0..<i0] z = Some y"
    and len: "length y = nv m"
    and inv: "\<And>i. i < nv m \<Longrightarrow> (if i < i0 then y ! i + (\<Sum>k < nv m. Loff m q i k * y ! k) = z ! i
                    else y ! i = z ! i)"
    by auto
  let ?S = "\<Sum>k < nv m. Loff m q i0 k * y ! k"
  let ?y' = "y[i0 := y ! i0 - ?S]"
  note row = solve_L_row_correct [OF wf q len i0]
  have sums: "(\<Sum>k < nv m. Loff m q i k * ?y' ! k) = (\<Sum>k < nv m. Loff m q i k * y ! k)"
    if "i \<le> i0" for i
  proof (rule sum.cong [OF refl])
    fix k assume "k \<in> {..<nv m}"
    show "Loff m q i k * ?y' ! k = Loff m q i k * y ! k"
    proof (cases "k = i0")
      case True
      with Loff_zero [OF that, of m q] show ?thesis by simp
    next
      case False
      then show ?thesis by simp
    qed
  qed
  have A: "if i < Suc i0 then ?y' ! i + (\<Sum>k < nv m. Loff m q i k * ?y' ! k) = z ! i
                    else ?y' ! i = z ! i" if i: "i < nv m" for i
  proof (cases "i < i0")
    case True
    with inv [OF i] sums [of i] show ?thesis by simp
  next
    case False
    show ?thesis
    proof (cases "i = i0")
      case True
      with inv [OF i] sums [of i0] len i0 show ?thesis by simp
    next
      case ne: False
      with False inv [OF i] show ?thesis by simp
    qed
  qed
  have B: "launch_seq (solve_L_row m qLD) [0..<Suc i0] z = Some ?y'"
    using run row by (simp add: launch_seq_append)
  have C: "length ?y' = nv m" using len by simp
  from A B C show ?case by blast
qed

lemma Lmat_row_sum:
  assumes "i < n"
  shows "(\<Sum>k < n. Lmat m q i k * w k) = w i + (\<Sum>k < n. Loff m q i k * w k)"
proof -
  have "Lmat m q i k * w k = (if k = i then w i else 0) + Loff m q i k * w k" for k
    using Loff_zero [of i i m q] by (auto simp: Lmat_def)
  then have "(\<Sum>k < n. Lmat m q i k * w k)
      = (\<Sum>k < n. (if k = i then w i else 0)) + (\<Sum>k < n. Loff m q i k * w k)"
    by (simp add: sum.distrib)
  with assms show ?thesis by simp
qed

lemma Lmat_col_sum:
  assumes "j < n"
  shows "(\<Sum>i < n. Lmat m q i j * w i) = w j + (\<Sum>i < n. Loff m q i j * w i)"
proof -
  have "Lmat m q i j * w i = (if i = j then w j else 0) + Loff m q i j * w i" for i
    using Loff_zero [of j j m q] by (auto simp: Lmat_def)
  then have "(\<Sum>i < n. Lmat m q i j * w i)
      = (\<Sum>i < n. (if i = j then w j else 0)) + (\<Sum>i < n. Loff m q i j * w i)"
    by (simp add: sum.distrib)
  with assms show ?thesis by simp
qed

lemma solve_m_sparse_correct:
  assumes wf: "wf_dofs m q" and q: "rd qLD 0 = Some q" and x: "length x = nv m"
    and dl: "nv m \<le> length dinv" and d0: "\<forall>i < nv m. dinv ! i \<noteq> 0"
  shows "\<exists>y. solve_m_sparse m qLD dinv x = Some y \<and> length y = nv m \<and>
           (\<forall>j < nv m. (\<Sum>i < nv m. Lmat m q i j * (1 / dinv ! i) *
                            (\<Sum>k < nv m. Lmat m q i k * y ! k)) = x ! j)"
proof -
  let ?n = "nv m"
  from solve_LT_rows [OF wf q x, of 0] obtain y1 where
    r1: "launch_seq (solve_LT_row m qLD) (rev [0..<?n]) x = Some y1" and l1: "length y1 = ?n"
    and v1: "\<And>j. j < ?n \<Longrightarrow> y1 ! j + (\<Sum>i \<in> {0..<?n}. Loff m q i j * y1 ! i) = x ! j"
    by auto
  let ?y2 = "map (\<lambda>i. if i < ?n then y1 ! i * dinv ! i else y1 ! i) [0..<?n]"
  have r2: "launch_seq (solve_D_row dinv) [0..<?n] y1 = Some ?y2"
    by (rule solve_D_rows [OF l1 dl order_refl])
  have l2: "length ?y2 = ?n" by simp
  from solve_L_rows [OF wf q l2, of ?n] obtain y3 where
    r3: "launch_seq (solve_L_row m qLD) [0..<?n] ?y2 = Some y3" and l3: "length y3 = ?n"
    and v3: "\<And>i. i < ?n \<Longrightarrow> y3 ! i + (\<Sum>k < ?n. Loff m q i k * y3 ! k) = ?y2 ! i"
    by auto
  have run: "solve_m_sparse m qLD dinv x = Some y3"
    using r1 r2 r3 by (simp add: solve_m_sparse_def)
  have row: "(1 / dinv ! i) * (\<Sum>k < ?n. Lmat m q i k * y3 ! k) = y1 ! i" if i: "i < ?n" for i
  proof -
    have "(\<Sum>k < ?n. Lmat m q i k * y3 ! k) = y1 ! i * dinv ! i"
      using v3 [OF i] i by (simp add: Lmat_row_sum [OF i])
    with d0 i show ?thesis by simp
  qed
  have "(\<Sum>i < ?n. Lmat m q i j * (1 / dinv ! i) * (\<Sum>k < ?n. Lmat m q i k * y3 ! k)) = x ! j"
    if j: "j < ?n" for j
  proof -
    have "(\<Sum>i < ?n. Lmat m q i j * (1 / dinv ! i) * (\<Sum>k < ?n. Lmat m q i k * y3 ! k))
        = (\<Sum>i < ?n. Lmat m q i j * y1 ! i)"
    proof (rule sum.cong [OF refl])
      fix i assume "i \<in> {..<?n}"
      then have "i < ?n" by simp
      from row [OF this]
      have "Lmat m q i j * ((1 / dinv ! i) * (\<Sum>k < ?n. Lmat m q i k * y3 ! k)) = Lmat m q i j * y1 ! i"
        by (simp only:)
      then show "Lmat m q i j * (1 / dinv ! i) * (\<Sum>k < ?n. Lmat m q i k * y3 ! k) = Lmat m q i j * y1 ! i"
        by (simp only: mult.assoc)
    qed
    also have "\<dots> = y1 ! j + (\<Sum>i < ?n. Loff m q i j * y1 ! i)"
      by (rule Lmat_col_sum [OF j])
    also have "\<dots> = x ! j"
      using v1 [OF j] by (simp add: lessThan_atLeast0)
    finally show ?thesis .
  qed
  with run l3 show ?thesis by blast
qed

lemma wf_m_chain: "wf_dofs m_chain [2, 3, 1 / 2]"
  by (auto simp: wf_dofs_def m_chain_def Model0_def dof_ancestors.simps less_Suc_eq
      numeral_2_eq_2)

lemma solve_m_chain:
  "solve_m chol m_chain [[2, 3, 1 / 2]] [1 / 2, 1 / 3] 0 1 st_xy = Some (st_xy(1 \<mapsto> [0, 2 / 3]))"
  by (simp add: solve_m_def solve_m_sparse_def solve_LT_row_def solve_L_row_def solve_D_row_def
      solve_LT_walk.simps solve_L_walk.simps wp_copy_def rd2_def rdi_def wri_def wr_def
      m_chain_def st_xy_def Model0_def upt_rec)

lemma Lmat_m_chain:
  "Lmat m_chain [2, 3, 1 / 2] 0 0 = 1" "Lmat m_chain [2, 3, 1 / 2] 0 (Suc 0) = 0"
  "Lmat m_chain [2, 3, 1 / 2] (Suc 0) 0 = 1 / 2" "Lmat m_chain [2, 3, 1 / 2] (Suc 0) (Suc 0) = 1"
  by (simp_all add: Lmat_def Loff_def m_chain_def Model0_def dof_ancestors.simps)

lemma chol_solve_2: "chol_solve [[2, 0], [1, 2]] [1, 2] = [1 / 16, 3 / 8]"
  by (simp add: chol_solve_def fwd_subst_def back_subst_def upt_rec)

text \<open>
  C7, with the system as the claim writes it, \<open>L D L\<^sup>T y = x\<close>. On the sparse path, for
  the packed factor \<open>[2, 3, 1/2]\<close> of two degrees of freedom (the second a child of the
  first), \<^verbatim>\<open>qLDiagInv = [1/2, 1/3]\<close> and \<open>x = [1, 2]\<close>, \<^verbatim>\<open>solve_m\<close> stores
  \<open>y = [0, 2/3]\<close>. Row \<open>0\<close> of \<open>L D L\<^sup>T y\<close> is \<open>2/3\<close> and not \<open>x\<^sub>0 = 1\<close>; row \<open>0\<close>
  of \<open>L\<^sup>T D L y\<close> is \<open>1\<close>.
\<close>

theorem solve_m_not_LDLT:
  "solve_m chol_solve m_chain [[2, 3, 1 / 2]] [1 / 2, 1 / 3] 0 1 st_xy = Some (st_xy(1 \<mapsto> [0, 2 / 3])) \<and>
   st_xy 0 = Some [1, 2] \<and>
   LDLT m_chain [2, 3, 1 / 2] [1 / 2, 1 / 3] [0, 2 / 3] 0 = 2 / 3 \<and>
   LDLT m_chain [2, 3, 1 / 2] [1 / 2, 1 / 3] [0, 2 / 3] 0 \<noteq> [1, 2] ! 0 \<and>
   LTDL m_chain [2, 3, 1 / 2] [1 / 2, 1 / 3] [0, 2 / 3] 0 = [1, 2] ! 0"
proof -
  have n: "nv m_chain = 2" by (simp add: m_chain_def Model0_def)
  have "LDLT m_chain [2, 3, 1 / 2] [1 / 2, 1 / 3] [0, 2 / 3] 0 = 2 / 3"
    by (simp add: LDLT_def n Lmat_m_chain lessThan_Suc numeral_2_eq_2)
  moreover have "LTDL m_chain [2, 3, 1 / 2] [1 / 2, 1 / 3] [0, 2 / 3] 0 = 1"
    by (simp add: LTDL_def n Lmat_m_chain lessThan_Suc numeral_2_eq_2)
  moreover have "st_xy 0 = Some [1, 2]" by (simp add: st_xy_def)
  ultimately show ?thesis
    using solve_m_chain [of chol_solve] by simp
qed

text \<open>
  C7. When \<^verbatim>\<open>x\<close> and \<^verbatim>\<open>y\<close> are two arrays of \<^verbatim>\<open>m.nv\<close> entries, \<^verbatim>\<open>solve_m\<close>
  returns, changes only the array \<^verbatim>\<open>y\<close> and leaves \<^verbatim>\<open>x\<close> as it was. On the sparse
  path (for a well-formed packed factor with non-zero \<^verbatim>\<open>qLDiagInv\<close>) the new \<^verbatim>\<open>y\<close>
  is a solution of the factored system \<open>L\<^sup>T D L y = x\<close>, with \<open>L\<close> the unit lower
  triangular matrix of the packed factor and \<open>D\<close> the diagonal matrix of the inverses of
  \<^verbatim>\<open>qLDiagInv\<close>. On the dense path the new \<^verbatim>\<open>y\<close> is a solution of \<open>L L\<^sup>T y = x\<close>, with
  \<open>L\<close> the tile of \<^verbatim>\<open>qLD\<close>, when \<^verbatim>\<open>wp.tile_cholesky_solve\<close> returns a solution of that
  system for this tile and this \<^verbatim>\<open>x\<close>, as Warp documents it.
\<close>

theorem solve_m_frame:
  assumes ne: "xr \<noteq> yr" and sx: "st xr = Some x" and sy: "st yr = Some y0"
    and lx: "length x = nv m" and ly: "length y0 = nv m"
    and sp: "is_sparse m \<Longrightarrow> wf_dofs m q \<and> rd qLD 0 = Some q \<and> nv m \<le> length qLDiagInv \<and>
               (\<forall>i < nv m. qLDiagInv ! i \<noteq> 0)"
    and de: "\<not> is_sparse m \<Longrightarrow> tile_load2 qLD (nv m) (nv m) = Some L \<and>
               length (tile_cholesky_solve L x) = nv m \<and>
               (\<forall>j < nv m. LLT (nv m) L (tile_cholesky_solve L x) j = x ! j)"
  shows "\<exists>y. solve_m tile_cholesky_solve m qLD qLDiagInv xr yr st = Some (st(yr \<mapsto> y)) \<and>
           (st(yr \<mapsto> y)) xr = Some x \<and> length y = nv m \<and>
           (\<forall>j < nv m. (if is_sparse m then LTDL m q qLDiagInv y j else LLT (nv m) L y j) = x ! j)"
proof (cases "is_sparse m")
  case True
  have copy: "wp_copy y0 x = Some x"
    using lx ly by (simp add: wp_copy_def)
  from sp [OF True] solve_m_sparse_correct [of m q qLD x qLDiagInv] lx obtain y where
    "solve_m_sparse m qLD qLDiagInv x = Some y" "length y = nv m"
    "\<forall>j < nv m. LTDL m q qLDiagInv y j = x ! j"
    unfolding LTDL_def by blast
  with True sx sy copy ne show ?thesis
    by (intro exI [of _ y]) (simp add: solve_m_def)
next
  case False
  from de [OF False] have L: "tile_load2 qLD (nv m) (nv m) = Some L"
    and len: "length (tile_cholesky_solve L x) = nv m"
    and sol: "\<forall>j < nv m. LLT (nv m) L (tile_cholesky_solve L x) j = x ! j" by simp_all
  have "solve_m_dense tile_cholesky_solve (nv m) qLD x y0 = Some (tile_cholesky_solve L x)"
    using L len lx ly by (simp add: solve_m_dense_def tile_load_def tile_store_def)
  with False sx sy ne len sol show ?thesis
    by (intro exI [of _ "tile_cholesky_solve L x"]) (simp add: solve_m_def)
qed

theorem solve_m_frame_witness:
  "wf_dofs m_chain [2, 3, 1 / 2] \<and>
   (\<exists>y. solve_m chol_solve m_chain [[2, 3, 1 / 2]] [1 / 2, 1 / 3] 0 1 st_xy = Some (st_xy(1 \<mapsto> y)) \<and>
      (st_xy(1 \<mapsto> y)) 0 = Some [1, 2] \<and> y = [0, 2 / 3] \<and>
      LTDL m_chain [2, 3, 1 / 2] [1 / 2, 1 / 3] y 0 = 1 \<and>
      LTDL m_chain [2, 3, 1 / 2] [1 / 2, 1 / 3] y 1 = 2) \<and>
   chol_solve [[2, 0], [1, 2]] [1, 2] = [1 / 16, 3 / 8] \<and>
   (\<exists>y. solve_m chol_solve m_dense [[2, 0], [1, 2]] [] 0 1 st_xy = Some (st_xy(1 \<mapsto> y)) \<and>
      (st_xy(1 \<mapsto> y)) 0 = Some [1, 2] \<and> y = [1 / 16, 3 / 8] \<and>
      LLT 2 [[2, 0], [1, 2]] y 0 = 1 \<and> LLT 2 [[2, 0], [1, 2]] y 1 = 2)"
proof -
  have st: "st_xy 0 = Some [1, 2]" "st_xy 1 = Some [0, 0]"
    by (simp_all add: st_xy_def)
  have sp: "is_sparse m_chain" "nv m_chain = 2" and de: "\<not> is_sparse m_dense" "nv m_dense = 2"
    by (simp_all add: m_chain_def m_dense_def Model0_def)
  have llt: "LLT 2 [[2, 0], [1, 2]] [1 / 16, 3 / 8] 0 = 1" "LLT 2 [[2, 0], [1, 2]] [1 / 16, 3 / 8] 1 = 2"
    by (simp_all add: LLT_def lessThan_Suc numeral_2_eq_2)
  from solve_m_frame [where xr = 0 and yr = 1 and st = st_xy and x = "[1, 2]" and ?y0.0 = "[0, 0]"
      and m = m_chain and q = "[2, 3, 1 / 2]" and qLD = "[[2, 3, 1 / 2]]"
      and qLDiagInv = "[1 / 2, 1 / 3]" and tile_cholesky_solve = chol_solve and L = "[]"]
  obtain y where y: "solve_m chol_solve m_chain [[2, 3, 1 / 2]] [1 / 2, 1 / 3] 0 1 st_xy
        = Some (st_xy(1 \<mapsto> y))" "(st_xy(1 \<mapsto> y)) 0 = Some [1, 2]"
      "LTDL m_chain [2, 3, 1 / 2] [1 / 2, 1 / 3] y 0 = 1"
      "LTDL m_chain [2, 3, 1 / 2] [1 / 2, 1 / 3] y 1 = 2"
    using st sp wf_m_chain by (auto simp: less_Suc_eq numeral_2_eq_2)
  from y(1) solve_m_chain [of chol_solve] have "y = [0, 2 / 3]"
    by (auto dest: fun_upd_eqD)
  moreover
  from solve_m_frame [where xr = 0 and yr = 1 and st = st_xy and x = "[1, 2]" and ?y0.0 = "[0, 0]"
      and m = m_dense and q = "[]" and qLD = "[[2, 0], [1, 2]]"
      and qLDiagInv = "[]" and tile_cholesky_solve = chol_solve and L = "[[2, 0], [1, 2]]"]
  obtain y' where y': "solve_m chol_solve m_dense [[2, 0], [1, 2]] [] 0 1 st_xy
        = Some (st_xy(1 \<mapsto> y'))" "(st_xy(1 \<mapsto> y')) 0 = Some [1, 2]"
      "LLT 2 [[2, 0], [1, 2]] y' 0 = 1" "LLT 2 [[2, 0], [1, 2]] y' 1 = 2"
    using st de llt by (auto simp: tile_load2_def chol_solve_2 less_Suc_eq numeral_2_eq_2)
  moreover from y'(1) have "y' = [1 / 16, 3 / 8]"
    using st de by (auto simp: solve_m_def solve_m_dense_def tile_load2_def tile_load_def
        tile_store_def chol_solve_2 dest: fun_upd_eqD)
  ultimately show ?thesis
    using wf_m_chain y chol_solve_2 by blast
qed

section \<open>Factoring the mass matrix\<close>



subsection \<open>The tree of the degrees of freedom\<close>






lemma finite_Dset [simp]: "finite (Dset m i)"
  by (simp add: Dset_def)



subsection \<open>The factor in closed form: \<open>L\<^sup>T D L = M\<close>\<close>





subsection \<open>One update\<close>

lemma rd2_Cons0 [simp]: "rd2 (q # rest) 0 j = rd q j"
  by (simp add: rd2_def rd_def)

lemma wr2_Cons0 [simp]: "wr2 (q # rest) 0 j v = map_option (\<lambda>q'. q' # rest) (wr q j v)"
  by (simp add: wr2_def rd_def wr_def)












subsection \<open>The levels\<close>










subsection \<open>The pivots of a positive definite matrix\<close>







subsection \<open>The two paths\<close>


















end
